theory Spec2Isabelle
  imports Main "HOL-Library.Multiset"
begin

section \<open>DocumentsStore (app/stores/DocumentsStore.js)\<close>

text \<open>
  A shallow embedding of the documents store: the entity table, the derived views,
  the named-page fetches, the single-document fetch and the paginated search cache.
  Every method of the class that mutates \<open>this\<close> is a function from the store to the
  new store; every \<open>throw\<close> is an \<open>Inl\<close> result.
\<close>

subsection \<open>Data model\<close>

type_synonym timestamp = int

text \<open>
  Modelled from the spec: the Document model (\<open>models/Document\<close>) is not part of the
  sources. The record keeps the fields that the store reads. Timestamps are numbers, as
  in the scenario of the specification; \<open>publishedAt\<close> absent is \<open>None\<close>. The raw
  payload of a document in a transport reply carries the same fields, so it has the same
  type.
\<close>

record document =
  doc_id :: string
  urlId :: string
  title :: string
  collectionId :: "string option"
  updatedAt :: timestamp
  publishedAt :: "timestamp option"

text \<open>
  One search hit: \<open>{ranking, context, document}\<close>, the field \<open>context\<close> under
  the name \<open>context_text\<close>. In a transport reply the \<open>document\<close> field is the raw
  document; in the search cache it is a live reference to the table's instance. The
  table holds one instance per id and updates it in place, so the reference is modelled
  by the id under which the instance is stored.
\<close>

record 'd result =
  ranking :: int
  context_text :: string
  document :: 'd

type_synonym raw_result = "document result"
type_synonym SearchResult = "string result"

text \<open>\<open>PaginationParams\<close>: every field is optional.\<close>

record PaginationParams =
  offset :: "int option"
  limit :: "int option"
  sort_field :: "string option"
  direction :: "string option"

text \<open>\<open>FetchOptions\<close>: an absent \<open>prefetch\<close> is falsy.\<close>

record FetchOptions =
  prefetch :: bool
  shareId :: "string option"

subsection \<open>Transport\<close>

text \<open>
  What \<open>client.post\<close> and \<open>client.get\<close> were asked, and how the awaited promise
  settles: it rejects, or it resolves to nothing, or it resolves to a response whose
  \<open>data\<close> field may be missing.
\<close>

datatype body =
    PageParams "PaginationParams option"
  | SearchParams PaginationParams string
  | InfoParams string "string option"

datatype request = Post string body | Get string body

datatype 'a reply = Rejected | NoResponse | Response "'a option"

datatype error = TransportFailure | InvariantViolation string

text \<open>\<open>invariant(res && res.data, message)\<close> after the \<open>await\<close>.\<close>

fun awaited :: "string \<Rightarrow> 'a reply \<Rightarrow> error + 'a" where
  "awaited message Rejected = Inl TransportFailure"
| "awaited message NoResponse = Inl (InvariantViolation message)"
| "awaited message (Response None) = Inl (InvariantViolation message)"
| "awaited message (Response (Some payload)) = Inr payload"

subsection \<open>The store\<close>

text \<open>
  \<open>data\<close> is the base store's observable map from id to Document, in insertion order
  (the order \<open>data.values()\<close> iterates in). \<open>requests\<close> is the trace of the calls made
  on the transport client, oldest first.
\<close>

record store =
  data :: "(string \<times> document) list"
  isFetching :: bool
  isLoaded :: bool
  recentlyViewedIds :: "string list"
  searchCache :: "string \<rightharpoonup> SearchResult list"
  requests :: "request list"

definition send :: "request \<Rightarrow> store \<Rightarrow> store" where
  "send r s = s\<lparr>requests := requests s @ [r]\<rparr>"

text \<open>\<open>this.data.get(id)\<close> and \<open>Array.from(this.data.values())\<close>.\<close>

definition data_get :: "store \<Rightarrow> string \<Rightarrow> document option" where
  "data_get s k = map_of (data s) k"

definition data_values :: "store \<Rightarrow> document list" where
  "data_values s = map snd (data s)"

text \<open>
  Modelled from the spec: \<open>BaseStore.add\<close> (\<open>stores/BaseStore\<close>) is not part of the
  sources. Per the spec the table is an identity map: adding a payload whose id is
  already present updates the existing instance in place (its position in the table
  stays), and a new id is appended.
\<close>

fun table_set :: "string \<Rightarrow> document \<Rightarrow> (string \<times> document) list \<Rightarrow> (string \<times> document) list" where
  "table_set k v [] = [(k, v)]"
| "table_set k v ((k', v') # rest) =
     (if k' = k then (k, v) # rest else (k', v') # table_set k v rest)"

definition add :: "store \<Rightarrow> document \<Rightarrow> store" where
  "add s item = s\<lparr>data := table_set (doc_id item) item (data s)\<rparr>"

subsection \<open>Library functions\<close>

text \<open>lodash \<open>compact\<close> over a list of possibly-absent values.\<close>

definition compact :: "'a option list \<Rightarrow> 'a list" where
  "compact xs = List.map_filter (\<lambda>x. x) xs"

text \<open>
  lodash \<open>orderBy(collection, key, order)\<close> on a timestamp key: a stable sort, equal
  keys keep their input order in both directions.
\<close>

datatype sort_order = Asc | Desc

definition orderBy :: "'a list \<Rightarrow> ('a \<Rightarrow> timestamp) \<Rightarrow> sort_order \<Rightarrow> 'a list" where
  "orderBy xs key ord =
     (case ord of Asc \<Rightarrow> sort_key key xs | Desc \<Rightarrow> sort_key (\<lambda>x. - key x) xs)"

text \<open>lodash \<open>uniq\<close>: the first occurrence of every value, in order.\<close>

abbreviation uniq_step :: "'a list \<Rightarrow> 'a \<Rightarrow> 'a list" where
  "uniq_step \<equiv> (\<lambda>seen x. if x \<in> set seen then seen else seen @ [x])"

definition uniq :: "'a list \<Rightarrow> 'a list" where
  "uniq xs = foldl uniq_step [] xs"

text \<open>\<open>String.prototype.endsWith\<close>.\<close>

definition endsWith :: "string \<Rightarrow> string \<Rightarrow> bool" where
  "endsWith str searchString =
     (length searchString \<le> length str \<and>
      drop (length str - length searchString) str = searchString)"

text \<open>
  \<open>Array.prototype.splice(start, deleteCount, ...items)\<close>, as the array is left by it:
  a negative start counts from the end, a start past the end is the end, and the
  delete count is clamped to what is there.
\<close>

definition splice_arr :: "'a list \<Rightarrow> int \<Rightarrow> int \<Rightarrow> 'a list \<Rightarrow> 'a list" where
  "splice_arr xs start deleteCount items =
     (let len = int (length xs);
          actualStart = (if start < 0 then max (len + start) 0 else min start len);
          actualDeleteCount = min (max deleteCount 0) (len - actualStart)
      in take (nat actualStart) xs @ items @ drop (nat (actualStart + actualDeleteCount)) xs)"

text \<open>
  Truthiness of an optional timestamp, as \<open>!!x\<close> and \<open>!x\<close> test it: an absent value
  is falsy, and so is the number 0.
\<close>

definition truthy :: "timestamp option \<Rightarrow> bool" where
  "truthy x = (case x of None \<Rightarrow> False | Some t \<Rightarrow> t \<noteq> 0)"

text \<open>\<open>x || 0\<close> on an optional number.\<close>

definition or0 :: "int option \<Rightarrow> int" where
  "or0 x = (case x of None \<Rightarrow> 0 | Some n \<Rightarrow> n)"

subsection \<open>Derived views\<close>

definition publishedInCollection :: "store \<Rightarrow> string \<Rightarrow> document list" where
  "publishedInCollection s cid =
     filter (\<lambda>d. collectionId d = Some cid \<and> truthy (publishedAt d)) (data_values s)"

definition recentlyUpdatedInCollection :: "store \<Rightarrow> string \<Rightarrow> document list" where
  "recentlyUpdatedInCollection s cid = orderBy (publishedInCollection s cid) updatedAt Desc"

definition drafts :: "store \<Rightarrow> document list" where
  "drafts s = filter (\<lambda>doc. \<not> truthy (publishedAt doc)) (orderBy (data_values s) updatedAt Desc)"

definition searchResults :: "store \<Rightarrow> string \<Rightarrow> SearchResult list" where
  "searchResults s query = (case searchCache s query of None \<Rightarrow> [] | Some rs \<Rightarrow> rs)"

text \<open>
  The entry that \<open>search\<close> builds for a hit whose document resolves in the table.
\<close>

definition cached_hit :: "raw_result \<Rightarrow> SearchResult" where
  "cached_hit r = \<lparr>ranking = ranking r, context_text = context_text r,
                   document = doc_id (document r)\<rparr>"

definition getByUrl :: "store \<Rightarrow> string \<Rightarrow> document option" where
  "getByUrl s url = List.find (\<lambda>doc. endsWith url (urlId doc)) (data_values s)"

subsection \<open>Asynchronous operations\<close>

text \<open>
  Each \<open>async\<close> method runs synchronously up to its \<open>await\<close> on the transport and
  continues when the transport settles. The part before the \<open>await\<close> is the
  \<open>_begin\<close> function, the continuation (given how the request settled) is the
  \<open>_resume\<close> function, and the function with the method's name is the call run to
  completion with nothing in between. A promise is either still waiting for the
  transport or settled with a value or an error.
\<close>

datatype 'a promise = Pending | Settled "error + 'a"

subsubsection \<open>fetchNamedPage\<close>

definition fetchNamedPage_begin :: "string option \<Rightarrow> PaginationParams option \<Rightarrow> store \<Rightarrow> store" where
  "fetchNamedPage_begin request options s =
     send (Post (''/documents.'' @ (case request of None \<Rightarrow> ''list'' | Some name \<Rightarrow> name))
                (PageParams options))
          (s\<lparr>isFetching := True\<rparr>)"

definition fetchNamedPage_resume ::
  "document list reply \<Rightarrow> store \<Rightarrow> (error + document list) \<times> store" where
  "fetchNamedPage_resume res s =
     (case awaited ''Document list not available'' res of
        Inl e \<Rightarrow> (Inl e, s\<lparr>isFetching := False\<rparr>)
      | Inr payload \<Rightarrow>
          (Inr payload, (foldl add s payload)\<lparr>isLoaded := True, isFetching := False\<rparr>))"

definition fetchNamedPage ::
  "string option \<Rightarrow> PaginationParams option \<Rightarrow> document list reply \<Rightarrow> store
     \<Rightarrow> (error + document list) \<times> store" where
  "fetchNamedPage request options res s =
     fetchNamedPage_resume res (fetchNamedPage_begin request options s)"

subsubsection \<open>fetchRecentlyViewed\<close>

definition fetchRecentlyViewed ::
  "PaginationParams option \<Rightarrow> document list reply \<Rightarrow> store
     \<Rightarrow> (error + document list) \<times> store" where
  "fetchRecentlyViewed options res s =
     (case fetchNamedPage (Some ''viewed'') options res s of
        (Inl e, s') \<Rightarrow> (Inl e, s')
      | (Inr payload, s') \<Rightarrow>
          (Inr payload,
           s'\<lparr>recentlyViewedIds := uniq (recentlyViewedIds s' @ map doc_id payload)\<rparr>))"

subsubsection \<open>search\<close>

definition search_begin :: "string \<Rightarrow> PaginationParams \<Rightarrow> store \<Rightarrow> store" where
  "search_begin query options s = send (Get ''/documents.search'' (SearchParams options query)) s"

definition search_resume ::
  "string \<Rightarrow> PaginationParams \<Rightarrow> raw_result list reply \<Rightarrow> store
     \<Rightarrow> (error + raw_result list) \<times> store" where
  "search_resume query options res s =
     (case awaited ''Search response should be available'' res of
        Inl e \<Rightarrow> (Inl e, s)
      | Inr payload \<Rightarrow>
          (let s1 = foldl (\<lambda>st r. add st (document r)) s payload;
               results = compact (map (\<lambda>r.
                   (case data_get s1 (doc_id (document r)) of
                      None \<Rightarrow> None
                    | Some doc \<Rightarrow> Some \<lparr>ranking = ranking r, context_text = context_text r,
                                         document = doc_id (document r)\<rparr>)) payload);
               existing = (case searchCache s1 query of None \<Rightarrow> [] | Some rs \<Rightarrow> rs);
               spliced = splice_arr existing (or0 (offset options)) (or0 (limit options)) results
           in (Inr payload, s1\<lparr>searchCache := (searchCache s1)(query \<mapsto> spliced)\<rparr>)))"

definition search ::
  "string \<Rightarrow> PaginationParams \<Rightarrow> raw_result list reply \<Rightarrow> store
     \<Rightarrow> (error + raw_result list) \<times> store" where
  "search query options res s = search_resume query options res (search_begin query options s)"

subsubsection \<open>fetch and prefetchDocument\<close>

definition fetch_begin ::
  "string \<Rightarrow> FetchOptions \<Rightarrow> store \<Rightarrow> document option promise \<times> store" where
  "fetch_begin ident options s =
     (let s1 = (if \<not> prefetch options then s\<lparr>isFetching := True\<rparr> else s)
      in case (case data_get s1 ident of Some d \<Rightarrow> Some d | None \<Rightarrow> getByUrl s1 ident) of
           Some doc \<Rightarrow> (Settled (Inr (Some doc)), s1\<lparr>isFetching := False\<rparr>)
         | None \<Rightarrow>
             (Pending, send (Post ''/documents.info'' (InfoParams ident (shareId options))) s1))"

definition fetch_resume ::
  "document reply \<Rightarrow> store \<Rightarrow> (error + document option) \<times> store" where
  "fetch_resume res s =
     (case awaited ''Document not available'' res of
        Inl e \<Rightarrow> (Inl e, s\<lparr>isFetching := False\<rparr>)
      | Inr payload \<Rightarrow>
          (let s1 = (add s payload)\<lparr>isLoaded := True\<rparr>
           in (Inr (data_get s1 (doc_id payload)), s1\<lparr>isFetching := False\<rparr>)))"

definition fetch ::
  "string \<Rightarrow> FetchOptions \<Rightarrow> document reply \<Rightarrow> store
     \<Rightarrow> (error + document option) \<times> store" where
  "fetch ident options res s =
     (case fetch_begin ident options s of
        (Settled r, s') \<Rightarrow> (r, s')
      | (Pending, s') \<Rightarrow> fetch_resume res s')"

text \<open>
  \<open>prefetchDocument\<close> is not \<open>async\<close>: it returns \<open>undefined\<close> (\<open>None\<close>) or the promise
  that \<open>fetch\<close> hands back, as that promise stands when \<open>fetch\<close> reaches its \<open>await\<close>
  or returns.
\<close>

definition prefetchDocument ::
  "string \<Rightarrow> store \<Rightarrow> document option promise option \<times> store" where
  "prefetchDocument ident s =
     (case data_get s ident of
        None \<Rightarrow>
          (let (p, s') = fetch_begin ident \<lparr>prefetch = True, shareId = None\<rparr> s
           in (Some p, s'))
      | Some doc \<Rightarrow> (None, s))"

subsection \<open>Sequences of searches\<close>

text \<open>
  A run of \<open>search\<close> calls for one query, each given with its options and the payload
  of its (successful) response, executed one after the other.
\<close>

type_synonym call = "PaginationParams \<times> raw_result list"

definition search_all :: "string \<Rightarrow> call list \<Rightarrow> store \<Rightarrow> store" where
  "search_all query calls s =
     foldl (\<lambda>st (options, payload). snd (search query options (Response (Some payload)) st)) s calls"

text \<open>
  The reading of the cache as a union of pages, in the words of its invariant: each
  page occupies the index range from its offset up to its offset plus its limit.
  \<open>page_at calls i\<close> is what the latest page whose range contains \<open>i\<close> holds there
  (nothing where a page has fewer results than its range has places), and
  \<open>extent n calls\<close> is the end of the furthest stretch of results (or \<open>n\<close>, the length
  before the run). \<open>pages_fit n calls\<close> says of every page of the run that it starts
  within the sequence as it is when the page arrives, has no more results than its
  limit, and is either full (as many results as its limit) or reaches the end of that
  sequence, so that no cached result lies beyond it.
\<close>

fun page_at :: "call list \<Rightarrow> nat \<Rightarrow> SearchResult option" where
  "page_at [] i = None"
| "page_at ((options, payload) # later) i =
     (case page_at later i of
        Some x \<Rightarrow> Some x
      | None \<Rightarrow>
          (let off = nat (or0 (offset options))
           in if off \<le> i \<and> i < off + nat (or0 (limit options)) \<and> i - off < length payload
              then Some (cached_hit (payload ! (i - off))) else None))"

fun extent :: "nat \<Rightarrow> call list \<Rightarrow> nat" where
  "extent n [] = n"
| "extent n ((options, payload) # later) =
     extent (max n (nat (or0 (offset options))
                      + min (nat (or0 (limit options))) (length payload))) later"

fun pages_fit :: "nat \<Rightarrow> call list \<Rightarrow> bool" where
  "pages_fit n [] = True"
| "pages_fit n ((options, payload) # later) =
     (0 \<le> or0 (offset options) \<and> nat (or0 (offset options)) \<le> n \<and>
      int (length payload) \<le> or0 (limit options) \<and>
      (int (length payload) = or0 (limit options)
         \<or> n \<le> nat (or0 (offset options)) + length payload) \<and>
      pages_fit (max n (nat (or0 (offset options)) + length payload)) later)"

subsection \<open>Fixtures\<close>

text \<open>
  The store as the constructor leaves it (the base store's table empty and its flags
  lowered), and the documents of the scenario: A, B and C, updated at 2, 5 and 1, all in
  collection X, all published except C.
\<close>

definition initial :: store where
  "initial = \<lparr>data = [], isFetching = False, isLoaded = False, recentlyViewedIds = [],
              searchCache = Map.empty, requests = []\<rparr>"

definition example_doc :: "string \<Rightarrow> timestamp \<Rightarrow> timestamp option \<Rightarrow> document" where
  "example_doc name updated published =
     \<lparr>doc_id = name, urlId = ''u-'' @ name, title = name, collectionId = Some ''X'',
      updatedAt = updated, publishedAt = published\<rparr>"

definition docA :: document where "docA = example_doc ''A'' 2 (Some 1)"
definition docB :: document where "docB = example_doc ''B'' 5 (Some 1)"
definition docC :: document where "docC = example_doc ''C'' 1 None"

definition tableABC :: store where
  "tableABC = initial\<lparr>data := [(''A'', docA), (''B'', docB), (''C'', docC)]\<rparr>"

text \<open>
  A document Z whose \<open>publishedAt\<close> is present and is the timestamp 0, in a table
  next to A.
\<close>

definition docZ :: document where "docZ = example_doc ''Z'' 3 (Some 0)"

definition tableAZ :: store where
  "tableAZ = initial\<lparr>data := [(''A'', docA), (''Z'', docZ)]\<rparr>"

text \<open>Search hits, two pages of ten, a page of three, and pagination options.\<close>

definition hit :: "string \<Rightarrow> raw_result" where
  "hit name = \<lparr>ranking = 1, context_text = name, document = example_doc name 0 (Some 0)\<rparr>"

definition first_page :: "raw_result list" where
  "first_page = map hit [''d00'', ''d01'', ''d02'', ''d03'', ''d04'', ''d05'', ''d06'', ''d07'', ''d08'', ''d09'']"

definition second_page :: "raw_result list" where
  "second_page = map hit [''d10'', ''d11'', ''d12'', ''d13'', ''d14'', ''d15'', ''d16'', ''d17'', ''d18'', ''d19'']"

definition short_page :: "raw_result list" where
  "short_page = map hit [''d20'', ''d21'', ''d22'']"

definition paging :: "int \<Rightarrow> int \<Rightarrow> PaginationParams" where
  "paging off lim = \<lparr>offset = Some off, limit = Some lim, sort_field = None, direction = None\<rparr>"

definition no_paging :: PaginationParams where
  "no_paging = \<lparr>offset = None, limit = None, sort_field = None, direction = None\<rparr>"

lemmas fixture_defs = initial_def example_doc_def docA_def docB_def docC_def tableABC_def
  docZ_def tableAZ_def

section \<open>Properties\<close>

subsection \<open>The entity table\<close>

lemma find_append_case:
  "List.find P (xs @ ys) = (case List.find P xs of Some x \<Rightarrow> Some x | None \<Rightarrow> List.find P ys)"
  by (induction xs) auto

lemma find_Some_set: "List.find P xs = Some x \<Longrightarrow> x \<in> set xs \<and> P x"
  by (induction xs) (auto split: if_splits)

lemma map_of_table_set: "map_of (table_set k v t) = (map_of t)(k \<mapsto> v)"
  by (induction t) (auto simp: fun_eq_iff)

lemma add_fields [simp]:
  "isFetching (add s d) = isFetching s"
  "isLoaded (add s d) = isLoaded s"
  "recentlyViewedIds (add s d) = recentlyViewedIds s"
  "searchCache (add s d) = searchCache s"
  "requests (add s d) = requests s"
  by (simp_all add: add_def)

lemma data_get_add: "data_get (add s d) k = (if k = doc_id d then Some d else data_get s k)"
  by (simp add: add_def data_get_def map_of_table_set)

lemma foldl_add_fields [simp]:
  "isFetching (foldl (\<lambda>st x. add st (f x)) s xs) = isFetching s"
  "isLoaded (foldl (\<lambda>st x. add st (f x)) s xs) = isLoaded s"
  "recentlyViewedIds (foldl (\<lambda>st x. add st (f x)) s xs) = recentlyViewedIds s"
  "searchCache (foldl (\<lambda>st x. add st (f x)) s xs) = searchCache s"
  "requests (foldl (\<lambda>st x. add st (f x)) s xs) = requests s"
  by (induction xs arbitrary: s; simp)+

lemma data_get_foldl_add:
  "data_get (foldl (\<lambda>st x. add st (f x)) s xs) k =
     (case List.find (\<lambda>d. doc_id d = k) (rev (map f xs)) of Some d \<Rightarrow> Some d | None \<Rightarrow> data_get s k)"
proof (induction xs arbitrary: s)
  case Nil
  show ?case by simp
next
  case (Cons x xs)
  show ?case
    by (simp add: Cons.IH find_append_case data_get_add split: option.splits)
qed

lemma data_get_foldl_add_in:
  assumes "x \<in> set xs"
  shows "\<exists>d. data_get (foldl (\<lambda>st x. add st (f x)) s xs) (doc_id (f x)) = Some d
             \<and> d \<in> f ` set xs \<and> doc_id d = doc_id (f x)"
proof -
  have "List.find (\<lambda>d. doc_id d = doc_id (f x)) (rev (map f xs)) \<noteq> None"
    using assms by (auto simp: find_None_iff)
  then obtain d where d: "List.find (\<lambda>d. doc_id d = doc_id (f x)) (rev (map f xs)) = Some d"
    by blast
  then have "d \<in> f ` set xs \<and> doc_id d = doc_id (f x)"
    by (auto dest: find_Some_set)
  with d show ?thesis by (simp add: data_get_foldl_add)
qed

lemma send_fields [simp]:
  "data (send r s) = data s"
  "isFetching (send r s) = isFetching s"
  "isLoaded (send r s) = isLoaded s"
  "recentlyViewedIds (send r s) = recentlyViewedIds s"
  "searchCache (send r s) = searchCache s"
  "requests (send r s) = requests s @ [r]"
  by (simp_all add: send_def)

lemma data_foldl_add:
  "data (foldl (\<lambda>st x. add st (f x)) s xs) =
     foldl (\<lambda>t x. table_set (doc_id (f x)) (f x) t) (data s) xs"
  by (induction xs arbitrary: s) (simp_all add: add_def)

lemma data_foldl_add_cong:
  "data s = data s' \<Longrightarrow>
     data (foldl (\<lambda>st x. add st (f x)) s xs) = data (foldl (\<lambda>st x. add st (f x)) s' xs)"
  by (simp add: data_foldl_add)

lemma data_get_cong: "data s = data s' \<Longrightarrow> data_get s k = data_get s' k"
  by (simp add: data_get_def)

lemmas foldl_add_plain_fields [simp] = foldl_add_fields [where f = "\<lambda>x. x"]
lemmas data_foldl_add_plain_cong = data_foldl_add_cong [where f = "\<lambda>x. x"]
lemmas data_get_foldl_add_plain_in = data_get_foldl_add_in [where f = "\<lambda>x. x", simplified]

lemma begin_fields [simp]:
  "data (fetchNamedPage_begin request options s) = data s"
  "isFetching (fetchNamedPage_begin request options s)"
  "isLoaded (fetchNamedPage_begin request options s) = isLoaded s"
  "recentlyViewedIds (fetchNamedPage_begin request options s) = recentlyViewedIds s"
  "searchCache (fetchNamedPage_begin request options s) = searchCache s"
  by (simp_all add: fetchNamedPage_begin_def send_def)

lemma getByUrl_cong: "data s = data s' \<Longrightarrow> getByUrl s u = getByUrl s' u"
  by (simp add: getByUrl_def data_values_def)

subsection \<open>fetchNamedPage\<close>

text \<open>
  C4. However the request of \<open>fetchNamedPage\<close> settles, \<open>isFetching\<close> is false when
  the call completes. A rejected request surfaces as the transport's failure; a response
  that is missing, or whose \<open>data\<close> field is missing, raises the invariant violation.
  On success the result is the raw list as received, \<open>isLoaded\<close> is set, the table is
  the old table with every returned entity added in order, and every returned id is a
  key of the table, holding an entity of the list with that id.
\<close>

theorem fetchNamedPage_outcome:
  "fetchNamedPage request options res s = (r, s') \<Longrightarrow>
     \<not> isFetching s' \<and>
     (res = Rejected \<longrightarrow> r = Inl TransportFailure) \<and>
     (res = NoResponse \<or> res = Response None \<longrightarrow>
        r = Inl (InvariantViolation ''Document list not available'')) \<and>
     (\<forall>payload. res = Response (Some payload) \<longrightarrow>
        r = Inr payload \<and> isLoaded s' \<and> data s' = data (foldl add s payload) \<and>
        (\<forall>d \<in> set payload. \<exists>doc. data_get s' (doc_id d) = Some doc \<and> doc \<in> set payload
                                 \<and> doc_id doc = doc_id d))"
proof (cases res)
  case Rejected
  assume "fetchNamedPage request options res s = (r, s')"
  with Rejected show ?thesis
    by (auto simp: fetchNamedPage_def fetchNamedPage_resume_def)
next
  case NoResponse
  assume "fetchNamedPage request options res s = (r, s')"
  with NoResponse show ?thesis
    by (auto simp: fetchNamedPage_def fetchNamedPage_resume_def)
next
  case (Response dat)
  assume run: "fetchNamedPage request options res s = (r, s')"
  show ?thesis
  proof (cases dat)
    case None
    with Response run show ?thesis
      by (auto simp: fetchNamedPage_def fetchNamedPage_resume_def)
  next
    case (Some payload)
    let ?b = "fetchNamedPage_begin request options s"
    from Response Some run have r: "r = Inr payload"
      and s': "s' = (foldl add ?b payload)\<lparr>isLoaded := True, isFetching := False\<rparr>"
      by (auto simp: fetchNamedPage_def fetchNamedPage_resume_def)
    have tbl: "data s' = data (foldl add s payload)"
      unfolding s' using data_foldl_add_plain_cong [of ?b s payload] by simp
    have "\<exists>doc. data_get s' (doc_id d) = Some doc \<and> doc \<in> set payload \<and> doc_id doc = doc_id d"
      if "d \<in> set payload" for d
      using data_get_foldl_add_plain_in [OF that, of s] data_get_cong [OF tbl] by simp
    with r s' tbl Response Some show ?thesis by simp
  qed
qed

theorem fetchNamedPage_outcome_witness:
  "fetchNamedPage (Some ''starred'') None (Response (Some [docA, docB])) initial =
     (Inr [docA, docB],
      initial\<lparr>data := [(''A'', docA), (''B'', docB)], isLoaded := True,
               requests := [Post ''/documents.starred'' (PageParams None)]\<rparr>) \<and>
   data_get (snd (fetchNamedPage (Some ''starred'') None (Response (Some [docA, docB])) initial)) ''B''
     = Some docB \<and>
   fst (fetchNamedPage (Some ''starred'') None (Response None) (initial\<lparr>isFetching := True\<rparr>))
     = Inl (InvariantViolation ''Document list not available'') \<and>
   \<not> isFetching (snd (fetchNamedPage (Some ''starred'') None (Response None)
                          (initial\<lparr>isFetching := True\<rparr>))) \<and>
   fst (fetchNamedPage None None Rejected initial) = Inl TransportFailure \<and>
   \<not> isFetching (snd (fetchNamedPage None None Rejected initial))"
proof -
  obtain rn sn where bad:
    "fetchNamedPage (Some ''starred'') None (Response None) (initial\<lparr>isFetching := True\<rparr>) = (rn, sn)"
    by (cases "fetchNamedPage (Some ''starred'') None (Response None) (initial\<lparr>isFetching := True\<rparr>)")
  from fetchNamedPage_outcome [OF bad]
  have n: "rn = Inl (InvariantViolation ''Document list not available'') \<and> \<not> isFetching sn"
    by simp
  obtain rj sj where rej: "fetchNamedPage None None Rejected initial = (rj, sj)"
    by (cases "fetchNamedPage None None Rejected initial")
  from fetchNamedPage_outcome [OF rej]
  have j: "rj = Inl TransportFailure \<and> \<not> isFetching sj"
    by simp
  let ?s' = "initial\<lparr>data := [(''A'', docA), (''B'', docB)], isLoaded := True,
               requests := [Post ''/documents.starred'' (PageParams None)]\<rparr>"
  have run: "fetchNamedPage (Some ''starred'') None (Response (Some [docA, docB])) initial =
     (Inr [docA, docB], ?s')"
    by (simp add: fetchNamedPage_def fetchNamedPage_resume_def fetchNamedPage_begin_def send_def
         add_def fixture_defs)
  from fetchNamedPage_outcome [OF run]
  have "\<forall>d \<in> set [docA, docB].
          \<exists>doc. data_get ?s' (doc_id d) = Some doc \<and> doc \<in> set [docA, docB] \<and> doc_id doc = doc_id d"
    by blast
  then have "\<exists>doc. data_get ?s' (doc_id docB) = Some doc \<and> doc \<in> set [docA, docB] \<and> doc_id doc = doc_id docB"
    by simp
  then have "data_get ?s' ''B'' = Some docB"
    by (auto simp: fixture_defs)
  with run n j show ?thesis by (simp add: bad rej)
qed

subsection \<open>search on a contract violation\<close>

text \<open>
  C9. When the response to \<open>search\<close> is missing or lacks its \<open>data\<close> field, the call
  raises the invariant violation and nothing of the store has changed: the entity table,
  the whole search cache (so the entry of the query, present or absent), the
  recently-viewed list and both flags are what they were before the call.
\<close>

theorem search_contract_violation:
  "res = NoResponse \<or> res = Response None \<Longrightarrow> search query options res s = (r, s') \<Longrightarrow>
     r = Inl (InvariantViolation ''Search response should be available'') \<and>
     data s' = data s \<and> searchCache s' = searchCache s \<and>
     recentlyViewedIds s' = recentlyViewedIds s \<and>
     isLoaded s' = isLoaded s \<and> isFetching s' = isFetching s"
  by (auto simp: search_def search_resume_def search_begin_def)

theorem search_contract_violation_witness:
  "search ''q'' \<lparr>offset = Some 0, limit = Some 10, sort_field = None, direction = None\<rparr>
      (Response None) tableABC =
     (Inl (InvariantViolation ''Search response should be available''),
      tableABC\<lparr>requests := [Get ''/documents.search''
         (SearchParams \<lparr>offset = Some 0, limit = Some 10, sort_field = None, direction = None\<rparr> ''q'')]\<rparr>)"
proof -
  let ?o = "\<lparr>offset = Some 0, limit = Some 10, sort_field = None, direction = None\<rparr>"
  obtain r s' where run: "search ''q'' ?o (Response None) tableABC = (r, s')"
    by (cases "search ''q'' ?o (Response None) tableABC")
  have "requests s' = [Get ''/documents.search'' (SearchParams ?o ''q'')]"
    using run by (auto simp: search_def search_resume_def search_begin_def send_def fixture_defs)
  with search_contract_violation [OF _ run] run show ?thesis
    by (simp add: fixture_defs)
qed

subsection \<open>fetch\<close>

text \<open>
  C5. \<open>fetch(id)\<close> resolves \<open>data.get(id) || getByUrl(id)\<close> first. When the id is a key
  of the table the call returns the document stored under it, and when it is not a key
  but some cached document's \<open>urlId\<close> is a suffix of it the call returns the first such
  document of the table; in both cases no request is issued and the table is unchanged.
  Only when neither lookup succeeds is one \<open>documents.info\<close> request issued (with the id
  and the share token); on a response with data the payload is added to the table, the
  store is marked loaded and the new entry is the result.
\<close>

theorem fetch_cached_or_requested:
  "fetch ident options res s = (r, s') \<Longrightarrow>
     (\<forall>d. data_get s ident = Some d \<longrightarrow>
        r = Inr (Some d) \<and> requests s' = requests s \<and> data s' = data s) \<and>
     (\<forall>d \<in> set (data_values s). data_get s ident = None \<and> endsWith ident (urlId d) \<longrightarrow>
        (\<exists>d'. getByUrl s ident = Some d' \<and> d' \<in> set (data_values s) \<and> endsWith ident (urlId d') \<and>
              r = Inr (Some d')) \<and>
        requests s' = requests s \<and> data s' = data s) \<and>
     (data_get s ident = None \<and> (\<forall>d \<in> set (data_values s). \<not> endsWith ident (urlId d)) \<longrightarrow>
        requests s' = requests s @ [Post ''/documents.info'' (InfoParams ident (shareId options))] \<and>
        (\<forall>raw. res = Response (Some raw) \<longrightarrow>
           r = Inr (Some raw) \<and> data s' = data (add s raw) \<and>
           data_get s' (doc_id raw) = Some raw \<and> isLoaded s'))"
proof -
  assume run: "fetch ident options res s = (r, s')"
  let ?s1 = "if \<not> prefetch options then s\<lparr>isFetching := True\<rparr> else s"
  have d1: "data ?s1 = data s" by simp
  have g1: "data_get ?s1 ident = data_get s ident" by (rule data_get_cong [OF d1])
  have u1: "getByUrl ?s1 ident = getByUrl s ident" by (rule getByUrl_cong [OF d1])
  have key: "r = Inr (Some d) \<and> requests s' = requests s \<and> data s' = data s"
    if "data_get s ident = Some d" for d
    using run that g1 by (auto simp: fetch_def fetch_begin_def Let_def)
  have url: "(\<exists>d'. getByUrl s ident = Some d' \<and> d' \<in> set (data_values s) \<and> endsWith ident (urlId d') \<and>
              r = Inr (Some d')) \<and> requests s' = requests s \<and> data s' = data s"
    if "d \<in> set (data_values s)" "data_get s ident = None" "endsWith ident (urlId d)" for d
  proof -
    from that have "getByUrl s ident \<noteq> None"
      by (auto simp: getByUrl_def find_None_iff)
    then obtain d' where d': "getByUrl s ident = Some d'" by blast
    then have "d' \<in> set (data_values s) \<and> endsWith ident (urlId d')"
      by (auto simp: getByUrl_def dest: find_Some_set)
    moreover have "r = Inr (Some d') \<and> requests s' = requests s \<and> data s' = data s"
      using run that(2) d' g1 u1 by (auto simp: fetch_def fetch_begin_def Let_def)
    ultimately show ?thesis using d' by simp
  qed
  have miss: "requests s' = requests s @ [Post ''/documents.info'' (InfoParams ident (shareId options))] \<and>
        (\<forall>raw. res = Response (Some raw) \<longrightarrow>
           r = Inr (Some raw) \<and> data s' = data (add s raw) \<and>
           data_get s' (doc_id raw) = Some raw \<and> isLoaded s')"
    if "data_get s ident = None" "\<forall>d \<in> set (data_values s). \<not> endsWith ident (urlId d)"
  proof -
    from that(2) have nu: "getByUrl s ident = None"
      by (auto simp: getByUrl_def find_None_iff)
    let ?s2 = "send (Post ''/documents.info'' (InfoParams ident (shareId options))) ?s1"
    from run that(1) nu g1 u1 have res: "fetch_resume res ?s2 = (r, s')"
      by (simp add: fetch_def fetch_begin_def Let_def)
    show ?thesis
    proof (cases res)
      case (Response dat)
      then show ?thesis using res
        by (cases dat) (auto simp: fetch_resume_def Let_def data_get_def add_def map_of_table_set)
    qed (use res in \<open>auto simp: fetch_resume_def\<close>)
  qed
  have A: "\<forall>d. data_get s ident = Some d \<longrightarrow>
        r = Inr (Some d) \<and> requests s' = requests s \<and> data s' = data s"
    using key by blast
  have B: "\<forall>d \<in> set (data_values s). data_get s ident = None \<and> endsWith ident (urlId d) \<longrightarrow>
        (\<exists>d'. getByUrl s ident = Some d' \<and> d' \<in> set (data_values s) \<and> endsWith ident (urlId d') \<and>
              r = Inr (Some d')) \<and>
        requests s' = requests s \<and> data s' = data s"
    using url by blast
  have C: "data_get s ident = None \<and> (\<forall>d \<in> set (data_values s). \<not> endsWith ident (urlId d)) \<longrightarrow>
        requests s' = requests s @ [Post ''/documents.info'' (InfoParams ident (shareId options))] \<and>
        (\<forall>raw. res = Response (Some raw) \<longrightarrow>
           r = Inr (Some raw) \<and> data s' = data (add s raw) \<and>
           data_get s' (doc_id raw) = Some raw \<and> isLoaded s')"
    by (intro impI, elim conjE, rule miss)
  show ?thesis by (rule conjI [OF A conjI [OF B C]])
qed

theorem fetch_cached_or_requested_witness:
  "fst (fetch ''A'' \<lparr>prefetch = False, shareId = None\<rparr> Rejected tableABC) = Inr (Some docA) \<and>
   requests (snd (fetch ''A'' \<lparr>prefetch = False, shareId = None\<rparr> Rejected tableABC)) = [] \<and>
   fst (fetch ''/doc/some-title-u-B'' \<lparr>prefetch = False, shareId = None\<rparr> Rejected tableABC)
     = Inr (Some docB) \<and>
   requests (snd (fetch ''/doc/some-title-u-B'' \<lparr>prefetch = False, shareId = None\<rparr> Rejected tableABC))
     = [] \<and>
   fst (fetch ''D'' \<lparr>prefetch = False, shareId = Some ''share''\<rparr>
          (Response (Some (example_doc ''D'' 7 None))) tableABC)
     = Inr (Some (example_doc ''D'' 7 None)) \<and>
   requests (snd (fetch ''D'' \<lparr>prefetch = False, shareId = Some ''share''\<rparr>
          (Response (Some (example_doc ''D'' 7 None))) tableABC))
     = [Post ''/documents.info'' (InfoParams ''D'' (Some ''share''))] \<and>
   data (snd (fetch ''D'' \<lparr>prefetch = False, shareId = Some ''share''\<rparr>
          (Response (Some (example_doc ''D'' 7 None))) tableABC))
     = [(''A'', docA), (''B'', docB), (''C'', docC), (''D'', example_doc ''D'' 7 None)] \<and>
   isLoaded (snd (fetch ''D'' \<lparr>prefetch = False, shareId = Some ''share''\<rparr>
          (Response (Some (example_doc ''D'' 7 None))) tableABC))"
proof -
  let ?o = "\<lparr>prefetch = False, shareId = None\<rparr>"
  let ?os = "\<lparr>prefetch = False, shareId = Some ''share''\<rparr>"
  let ?d = "example_doc ''D'' 7 None"
  obtain r1 s1 where run1: "fetch ''A'' ?o Rejected tableABC = (r1, s1)"
    by (cases "fetch ''A'' ?o Rejected tableABC")
  obtain r2 s2 where run2: "fetch ''/doc/some-title-u-B'' ?o Rejected tableABC = (r2, s2)"
    by (cases "fetch ''/doc/some-title-u-B'' ?o Rejected tableABC")
  obtain r3 s3 where run3: "fetch ''D'' ?os (Response (Some ?d)) tableABC = (r3, s3)"
    by (cases "fetch ''D'' ?os (Response (Some ?d)) tableABC")
  have empty: "requests tableABC = []"
    by (simp add: fixture_defs)
  have keyA: "data_get tableABC ''A'' = Some docA"
    by (simp add: data_get_def fixture_defs)
  have urlB: "docB \<in> set (data_values tableABC)"
    "data_get tableABC ''/doc/some-title-u-B'' = None \<and> endsWith ''/doc/some-title-u-B'' (urlId docB)"
    "getByUrl tableABC ''/doc/some-title-u-B'' = Some docB"
    by (simp_all add: getByUrl_def data_get_def data_values_def endsWith_def fixture_defs)
  have missD: "data_get tableABC ''D'' = None \<and>
      (\<forall>d \<in> set (data_values tableABC). \<not> endsWith ''D'' (urlId d))"
    by (simp add: data_get_def data_values_def endsWith_def fixture_defs)
  have tbl: "data (add tableABC ?d) = [(''A'', docA), (''B'', docB), (''C'', docC), (''D'', ?d)]"
    by (simp add: add_def fixture_defs)
  have 1: "r1 = Inr (Some docA) \<and> requests s1 = []"
    using fetch_cached_or_requested [OF run1] keyA empty by simp
  have 2: "r2 = Inr (Some docB) \<and> requests s2 = []"
    using fetch_cached_or_requested [OF run2] urlB empty by auto
  have 3: "r3 = Inr (Some ?d) \<and> data s3 = [(''A'', docA), (''B'', docB), (''C'', docC), (''D'', ?d)] \<and>
           isLoaded s3 \<and> requests s3 = [Post ''/documents.info'' (InfoParams ''D'' (Some ''share''))]"
    using fetch_cached_or_requested [OF run3] missD empty tbl by simp
  from 1 2 3 show ?thesis
    unfolding run1 run2 run3 by simp
qed

subsection \<open>prefetchDocument\<close>

text \<open>
  C10. For an id that is a key of the table \<open>prefetchDocument\<close> issues no request,
  leaves the store alone and returns \<open>undefined\<close>, not the cached document. For an id
  that is not a key it returns the promise of \<open>fetch(id, {prefetch: true})\<close>, which
  settles as that \<open>fetch\<close> does. Its own guard looks at the key only: an id that only
  matches by \<open>urlId\<close> suffix still goes to \<open>fetch\<close> (which then answers from the
  table). Nothing is deduplicated: a second call made while the first request is still
  pending issues the same request again.
\<close>

theorem prefetchDocument_cases:
  "(data_get s ident \<noteq> None \<longrightarrow> prefetchDocument ident s = (None, s)) \<and>
   (data_get s ident = None \<longrightarrow>
      (\<exists>p s'. fetch_begin ident \<lparr>prefetch = True, shareId = None\<rparr> s = (p, s') \<and>
              prefetchDocument ident s = (Some p, s') \<and>
              (case p of Settled r \<Rightarrow> (r, s') | Pending \<Rightarrow> fetch_resume res s') =
                fetch ident \<lparr>prefetch = True, shareId = None\<rparr> res s)) \<and>
   (\<forall>d. data_get s ident = None \<and> getByUrl s ident = Some d \<longrightarrow>
      prefetchDocument ident s = (Some (Settled (Inr (Some d))), s\<lparr>isFetching := False\<rparr>)) \<and>
   (data_get s ident = None \<and> getByUrl s ident = None \<longrightarrow>
      (\<exists>s1 s2. prefetchDocument ident s = (Some Pending, s1) \<and>
               prefetchDocument ident s1 = (Some Pending, s2) \<and>
               requests s2 = requests s @ [Post ''/documents.info'' (InfoParams ident None),
                                           Post ''/documents.info'' (InfoParams ident None)]))"
proof -
  let ?req = "Post ''/documents.info'' (InfoParams ident None)"
  have a: "prefetchDocument ident s = (None, s)" if "data_get s ident \<noteq> None"
    using that by (auto simp: prefetchDocument_def)
  have b: "\<exists>p s'. fetch_begin ident \<lparr>prefetch = True, shareId = None\<rparr> s = (p, s') \<and>
              prefetchDocument ident s = (Some p, s') \<and>
              (case p of Settled r \<Rightarrow> (r, s') | Pending \<Rightarrow> fetch_resume res s') =
                fetch ident \<lparr>prefetch = True, shareId = None\<rparr> res s"
    if "data_get s ident = None"
  proof -
    obtain p s' where f: "fetch_begin ident \<lparr>prefetch = True, shareId = None\<rparr> s = (p, s')"
      by (cases "fetch_begin ident \<lparr>prefetch = True, shareId = None\<rparr> s")
    then show ?thesis using that
      by (cases p) (auto simp: prefetchDocument_def fetch_def)
  qed
  have c: "prefetchDocument ident s = (Some (Settled (Inr (Some d))), s\<lparr>isFetching := False\<rparr>)"
    if "data_get s ident = None" "getByUrl s ident = Some d" for d
    using that by (simp add: prefetchDocument_def fetch_begin_def)
  have d: "\<exists>s1 s2. prefetchDocument ident s = (Some Pending, s1) \<and>
               prefetchDocument ident s1 = (Some Pending, s2) \<and>
               requests s2 = requests s @ [?req, ?req]"
    if "data_get s ident = None" "getByUrl s ident = None"
  proof -
    have 1: "prefetchDocument ident s = (Some Pending, send ?req s)"
      using that by (simp add: prefetchDocument_def fetch_begin_def)
    have "data_get (send ?req s) ident = None" "getByUrl (send ?req s) ident = None"
      using that data_get_cong [of "send ?req s" s] getByUrl_cong [of "send ?req s" s] by simp_all
    then have 2: "prefetchDocument ident (send ?req s) = (Some Pending, send ?req (send ?req s))"
      by (simp add: prefetchDocument_def fetch_begin_def)
    from 1 2 show ?thesis by simp
  qed
  from a b c d show ?thesis by blast
qed

theorem prefetchDocument_cases_witness:
  "prefetchDocument ''A'' tableABC = (None, tableABC) \<and>
   prefetchDocument ''/doc/some-title-u-B'' tableABC = (Some (Settled (Inr (Some docB))), tableABC) \<and>
   (\<exists>s1 s2. prefetchDocument ''D'' tableABC = (Some Pending, s1) \<and>
            prefetchDocument ''D'' s1 = (Some Pending, s2) \<and>
            requests s2 = [Post ''/documents.info'' (InfoParams ''D'' None),
                           Post ''/documents.info'' (InfoParams ''D'' None)])"
proof -
  have keyA: "data_get tableABC ''A'' \<noteq> None"
    by (simp add: data_get_def fixture_defs)
  have urlB: "data_get tableABC ''/doc/some-title-u-B'' = None \<and>
              getByUrl tableABC ''/doc/some-title-u-B'' = Some docB"
    by (simp add: getByUrl_def data_get_def data_values_def endsWith_def fixture_defs)
  have missD: "data_get tableABC ''D'' = None \<and> getByUrl tableABC ''D'' = None"
    by (simp add: getByUrl_def data_get_def data_values_def endsWith_def fixture_defs)
  have idle: "tableABC\<lparr>isFetching := False\<rparr> = tableABC"
    by (simp add: fixture_defs)
  have empty: "requests tableABC = []"
    by (simp add: fixture_defs)
  from prefetchDocument_cases [of tableABC "''A''" Rejected] keyA
  have 1: "prefetchDocument ''A'' tableABC = (None, tableABC)" by blast
  from prefetchDocument_cases [of tableABC "''/doc/some-title-u-B''" Rejected] urlB idle
  have 2: "prefetchDocument ''/doc/some-title-u-B'' tableABC =
             (Some (Settled (Inr (Some docB))), tableABC)" by simp
  from prefetchDocument_cases [of tableABC "''D''" Rejected] missD empty
  have 3: "\<exists>s1 s2. prefetchDocument ''D'' tableABC = (Some Pending, s1) \<and>
            prefetchDocument ''D'' s1 = (Some Pending, s2) \<and>
            requests s2 = [Post ''/documents.info'' (InfoParams ''D'' None),
                           Post ''/documents.info'' (InfoParams ''D'' None)]" by simp
  from 1 2 3 show ?thesis by simp
qed

subsection \<open>The fetching flag under prefetch\<close>

lemma fetch_always_clears_isFetching: "\<not> isFetching (snd (fetch ident options res s))"
proof (cases res)
  case (Response dat)
  then show ?thesis
    by (cases dat) (auto simp: fetch_def fetch_begin_def fetch_resume_def Let_def split: option.splits)
qed (auto simp: fetch_def fetch_begin_def fetch_resume_def Let_def split: option.splits)

text \<open>
  C7. With \<open>prefetch\<close> set, \<open>fetch\<close> does not raise \<open>isFetching\<close>, but its
  \<open>finally\<close> block lowers it all the same. While a \<open>fetchNamedPage\<close> request is
  pending (\<open>isFetching\<close> is true), a prefetching \<open>fetch\<close> that completes leaves the
  flag false: the flag is not what it was before the call.
\<close>

theorem fetch_prefetch_lowers_isFetching:
  "isFetching (fetchNamedPage_begin (Some ''list'') None initial) \<and>
   \<not> isFetching (snd (fetch ''A'' \<lparr>prefetch = True, shareId = None\<rparr> (Response (Some docA))
                          (fetchNamedPage_begin (Some ''list'') None initial)))"
  by (simp add: fetch_def fetch_begin_def fetch_resume_def fetchNamedPage_begin_def
        getByUrl_def data_get_def data_values_def send_def add_def fixture_defs)

subsection \<open>fetchRecentlyViewed\<close>

lemma uniq_fold_set: "set (foldl uniq_step acc xs) = set acc \<union> set xs"
  by (induction xs arbitrary: acc) auto

lemma uniq_fold_distinct: "distinct acc \<Longrightarrow> distinct (foldl uniq_step acc xs)"
  by (induction xs arbitrary: acc) auto

lemma uniq_fold_split:
  "foldl uniq_step acc xs = acc @ foldl uniq_step [] (filter (\<lambda>x. x \<notin> set acc) xs)"
proof (induction "length xs" arbitrary: xs acc rule: less_induct)
  case less
  show ?case
  proof (cases xs)
    case Nil
    then show ?thesis by simp
  next
    case (Cons x rest)
    show ?thesis
    proof (cases "x \<in> set acc")
      case True
      with Cons less [of rest acc] show ?thesis by simp
    next
      case False
      let ?new = "filter (\<lambda>y. y \<notin> set acc) rest"
      have "length ?new < length xs"
        using Cons by (simp add: le_imp_less_Suc)
      from less [OF this, of "[x]"]
      have a: "foldl uniq_step [x] ?new = [x] @ foldl uniq_step [] (filter (\<lambda>y. y \<notin> set [x]) ?new)" .
      have b: "foldl uniq_step (acc @ [x]) rest
                 = (acc @ [x]) @ foldl uniq_step [] (filter (\<lambda>y. y \<notin> set (acc @ [x])) rest)"
        using less [of rest "acc @ [x]"] Cons by simp
      have c: "filter (\<lambda>y. y \<notin> set [x]) ?new = filter (\<lambda>y. y \<notin> set (acc @ [x])) rest"
        by (auto intro: filter_cong)
      from False Cons a b c show ?thesis by simp
    qed
  qed
qed

lemma uniq_set: "set (uniq xs) = set xs"
  by (simp add: uniq_def uniq_fold_set)

lemma uniq_distinct: "distinct (uniq xs)"
  by (simp add: uniq_def uniq_fold_distinct)

lemma uniq_append: "uniq (xs @ ys) = uniq xs @ uniq (filter (\<lambda>y. y \<notin> set xs) ys)"
proof -
  have "uniq (xs @ ys) = foldl uniq_step (uniq xs) ys"
    by (simp add: uniq_def)
  also have "\<dots> = uniq xs @ foldl uniq_step [] (filter (\<lambda>y. y \<notin> set (uniq xs)) ys)"
    by (rule uniq_fold_split)
  finally show ?thesis by (simp add: uniq_set) (simp add: uniq_def)
qed

lemma uniq_fold_id: "distinct (acc @ xs) \<Longrightarrow> foldl uniq_step acc xs = acc @ xs"
  by (induction xs arbitrary: acc) auto

lemma uniq_id: "distinct xs \<Longrightarrow> uniq xs = xs"
  using uniq_fold_id [of "[]" xs] by (simp add: uniq_def)

lemma fetchRecentlyViewed_success:
  "fetchRecentlyViewed options (Response (Some payload)) s = (r, s') \<Longrightarrow>
     r = Inr payload \<and>
     recentlyViewedIds s' = uniq (recentlyViewedIds s @ map doc_id payload)"
  by (auto simp: fetchRecentlyViewed_def fetchNamedPage_def fetchNamedPage_resume_def)

text \<open>
  C6. After two successive \<open>fetchRecentlyViewed\<close> calls that both succeed, the
  recently-viewed id list has no duplicates and holds exactly the ids it held before plus
  the ids of both pages. The list after the first call is a prefix of the list after the
  second, so every id seen before keeps its position, and what is appended are the ids of
  the second page that were not yet in the list, each once, in order of first occurrence.
\<close>

theorem fetchRecentlyViewed_union:
  assumes first: "fetchRecentlyViewed options1 (Response (Some page1)) s = (r1, s1)"
      and second: "fetchRecentlyViewed options2 (Response (Some page2)) s1 = (r2, s2)"
  shows "distinct (recentlyViewedIds s2) \<and>
         set (recentlyViewedIds s2) = set (recentlyViewedIds s1) \<union> doc_id ` set page2 \<and>
         set (recentlyViewedIds s2) = set (recentlyViewedIds s) \<union> doc_id ` set page1 \<union> doc_id ` set page2 \<and>
         recentlyViewedIds s2 =
           recentlyViewedIds s1 @
           uniq (filter (\<lambda>i. i \<notin> set (recentlyViewedIds s1)) (map doc_id page2))"
proof -
  let ?ids1 = "recentlyViewedIds s1" and ?ids2 = "recentlyViewedIds s2"
  from fetchRecentlyViewed_success [OF first]
  have ids1: "?ids1 = uniq (recentlyViewedIds s @ map doc_id page1)" by simp
  from fetchRecentlyViewed_success [OF second]
  have ids2: "?ids2 = uniq (?ids1 @ map doc_id page2)" by simp
  have d1: "distinct ?ids1" by (simp add: ids1 uniq_distinct)
  have "?ids2 = uniq ?ids1 @ uniq (filter (\<lambda>i. i \<notin> set ?ids1) (map doc_id page2))"
    unfolding ids2 by (rule uniq_append)
  then have app: "?ids2 = ?ids1 @ uniq (filter (\<lambda>i. i \<notin> set ?ids1) (map doc_id page2))"
    using d1 by (simp add: uniq_id)
  have "distinct ?ids2" by (simp add: ids2 uniq_distinct)
  moreover have "set ?ids2 = set ?ids1 \<union> doc_id ` set page2"
    by (simp add: ids2 uniq_set)
  moreover have "set ?ids1 = set (recentlyViewedIds s) \<union> doc_id ` set page1"
    by (simp add: ids1 uniq_set)
  ultimately show ?thesis using app by simp
qed

theorem fetchRecentlyViewed_union_witness:
  "recentlyViewedIds (snd (fetchRecentlyViewed None (Response (Some [docA, docB])) initial))
     = [''A'', ''B''] \<and>
   recentlyViewedIds (snd (fetchRecentlyViewed None (Response (Some [docB, docC, docA, docC]))
       (snd (fetchRecentlyViewed None (Response (Some [docA, docB])) initial))))
     = [''A'', ''B'', ''C'']"
proof -
  obtain r1 s1 where first: "fetchRecentlyViewed None (Response (Some [docA, docB])) initial = (r1, s1)"
    by (cases "fetchRecentlyViewed None (Response (Some [docA, docB])) initial")
  obtain r2 s2 where second:
    "fetchRecentlyViewed None (Response (Some [docB, docC, docA, docC])) s1 = (r2, s2)"
    by (cases "fetchRecentlyViewed None (Response (Some [docB, docC, docA, docC])) s1")
  have ids1: "recentlyViewedIds s1 = [''A'', ''B'']"
    using fetchRecentlyViewed_success [OF first] by (simp add: uniq_def fixture_defs)
  from fetchRecentlyViewed_union [OF first second]
  have "recentlyViewedIds s2 =
          recentlyViewedIds s1 @
          uniq (filter (\<lambda>i. i \<notin> set (recentlyViewedIds s1)) (map doc_id [docB, docC, docA, docC]))"
    by simp
  then have "recentlyViewedIds s2 = [''A'', ''B'', ''C'']"
    by (simp add: ids1 uniq_def fixture_defs)
  with ids1 show ?thesis by (simp add: first second)
qed

subsection \<open>Derived views\<close>

lemma orderBy_mset: "mset (orderBy xs key ord) = mset xs"
  by (cases ord) (simp_all add: orderBy_def)

lemma orderBy_Desc_sorted: "sorted_wrt (\<lambda>a b. key b \<le> key a) (orderBy xs key Desc)"
proof -
  have "sorted (map (\<lambda>x. - key x) (sort_key (\<lambda>x. - key x) xs))"
    by (rule sorted_sort_key)
  then show ?thesis
    by (simp add: orderBy_def sorted_wrt_map)
qed

lemma orderBy_Desc_stable:
  "filter (\<lambda>x. key x = t) (orderBy xs key Desc) = filter (\<lambda>x. key x = t) xs"
  using sort_key_stable [of "\<lambda>x. - key x" "- t" xs]
  by (simp add: orderBy_def)

lemma orderBy_filter: "filter P (orderBy xs key ord) = orderBy (filter P xs) key ord"
  by (cases ord) (simp_all add: orderBy_def filter_sort)

text \<open>
  C8, as the code has it. For every table, \<open>publishedInCollection(c)\<close> is exactly the
  documents of the table that are in collection \<open>c\<close> and whose \<open>publishedAt\<close> is truthy,
  so none of them has an absent \<open>publishedAt\<close>; \<open>recentlyUpdatedInCollection(c)\<close> is a
  rearrangement of exactly those documents in descending order of \<open>updatedAt\<close>,
  documents with equal \<open>updatedAt\<close> staying in table order; \<open>drafts\<close> is the same kind
  of rearrangement of exactly the documents of the table whose \<open>publishedAt\<close> is falsy:
  every document with an absent \<open>publishedAt\<close>, and also one whose \<open>publishedAt\<close> is
  the timestamp 0. On the table of the scenario (A, B, C updated at 2, 5, 1, all in X, C
  unpublished) the two views are [B, A] and [C].
\<close>

theorem derived_views:
  "mset (publishedInCollection s cid)
     = filter_mset (\<lambda>d. collectionId d = Some cid \<and> truthy (publishedAt d))
         (mset (map snd (data s))) \<and>
   (\<forall>d \<in> set (publishedInCollection s cid). publishedAt d \<noteq> None) \<and>
   mset (recentlyUpdatedInCollection s cid)
     = filter_mset (\<lambda>d. collectionId d = Some cid \<and> truthy (publishedAt d))
         (mset (map snd (data s))) \<and>
   sorted_wrt (\<lambda>a b. updatedAt b \<le> updatedAt a) (recentlyUpdatedInCollection s cid) \<and>
   (\<forall>t. filter (\<lambda>d. updatedAt d = t) (recentlyUpdatedInCollection s cid)
          = filter (\<lambda>d. updatedAt d = t \<and> collectionId d = Some cid \<and> truthy (publishedAt d))
              (map snd (data s))) \<and>
   mset (drafts s) = filter_mset (\<lambda>d. \<not> truthy (publishedAt d)) (mset (map snd (data s))) \<and>
   (\<forall>d \<in> set (map snd (data s)). publishedAt d = None \<longrightarrow> d \<in> set (drafts s)) \<and>
   sorted_wrt (\<lambda>a b. updatedAt b \<le> updatedAt a) (drafts s) \<and>
   (\<forall>t. filter (\<lambda>d. updatedAt d = t) (drafts s)
          = filter (\<lambda>d. updatedAt d = t \<and> \<not> truthy (publishedAt d)) (map snd (data s))) \<and>
   recentlyUpdatedInCollection tableABC ''X'' = [docB, docA] \<and>
   drafts tableABC = [docC]"
proof -
  let ?P = "\<lambda>d. collectionId d = Some cid \<and> truthy (publishedAt d)"
  let ?D = "\<lambda>d. \<not> truthy (publishedAt d)"
  let ?desc = "\<lambda>a b. updatedAt b \<le> updatedAt a"
  have pub: "publishedInCollection s cid = filter ?P (map snd (data s))"
    by (simp add: publishedInCollection_def data_values_def)
  have dr: "drafts s = orderBy (filter ?D (map snd (data s))) updatedAt Desc"
    by (simp add: drafts_def orderBy_filter data_values_def)
  have 1: "mset (publishedInCollection s cid) = filter_mset ?P (mset (map snd (data s)))"
    by (simp add: pub)
  have 2: "\<forall>d \<in> set (publishedInCollection s cid). publishedAt d \<noteq> None"
    by (auto simp: pub truthy_def split: option.splits)
  have 3: "mset (recentlyUpdatedInCollection s cid) = filter_mset ?P (mset (map snd (data s)))"
    by (simp add: recentlyUpdatedInCollection_def orderBy_mset pub)
  have 4: "sorted_wrt ?desc (recentlyUpdatedInCollection s cid)"
    by (simp add: recentlyUpdatedInCollection_def orderBy_Desc_sorted)
  have 5: "\<forall>t. filter (\<lambda>d. updatedAt d = t) (recentlyUpdatedInCollection s cid)
          = filter (\<lambda>d. updatedAt d = t \<and> ?P d) (map snd (data s))"
    by (simp add: recentlyUpdatedInCollection_def orderBy_Desc_stable pub conj_ac)
  have 6: "mset (drafts s) = filter_mset ?D (mset (map snd (data s)))"
    by (simp add: dr orderBy_mset)
  have 7: "\<forall>d \<in> set (map snd (data s)). publishedAt d = None \<longrightarrow> d \<in> set (drafts s)"
  proof (intro ballI impI)
    fix d assume "d \<in> set (map snd (data s))" "publishedAt d = None"
    then have "d \<in># filter_mset ?D (mset (map snd (data s)))"
      by (simp add: truthy_def)
    then have "d \<in># mset (drafts s)" by (simp only: 6)
    then show "d \<in> set (drafts s)" by simp
  qed
  have 8: "sorted_wrt ?desc (drafts s)"
    by (simp add: dr orderBy_Desc_sorted)
  have 9: "\<forall>t. filter (\<lambda>d. updatedAt d = t) (drafts s)
          = filter (\<lambda>d. updatedAt d = t \<and> ?D d) (map snd (data s))"
    by (simp add: dr orderBy_Desc_stable conj_ac)
  have 10: "recentlyUpdatedInCollection tableABC ''X'' = [docB, docA]"
    by (simp add: recentlyUpdatedInCollection_def publishedInCollection_def orderBy_def
          data_values_def truthy_def fixture_defs)
  have 11: "drafts tableABC = [docC]"
    by (simp add: drafts_def orderBy_def data_values_def truthy_def fixture_defs)
  from 1 2 3 4 5 6 7 8 9 10 11 show ?thesis by (intro conjI)
qed

theorem derived_views_witness:
  "publishedInCollection tableABC ''X'' = [docA, docB] \<and>
   publishedAt docA \<noteq> None \<and> publishedAt docB \<noteq> None \<and>
   recentlyUpdatedInCollection tableABC ''X'' = [docB, docA] \<and>
   drafts tableABC = [docC] \<and>
   publishedAt docC = None \<and> docC \<in> set (drafts tableABC)"
proof -
  have p: "publishedInCollection tableABC ''X'' = [docA, docB]"
    by (simp add: publishedInCollection_def data_values_def truthy_def fixture_defs)
  have c: "docC \<in> set (map snd (data tableABC))" "publishedAt docC = None"
    by (simp_all add: fixture_defs)
  note th = derived_views [of tableABC "''X''"]
  note no_absent = th [THEN conjunct2, THEN conjunct1, rule_format]
  note scenario = th [THEN conjunct2, THEN conjunct2, THEN conjunct2, THEN conjunct2,
                      THEN conjunct2, THEN conjunct2, THEN conjunct2, THEN conjunct2,
                      THEN conjunct2]
  note has_absent = th [THEN conjunct2, THEN conjunct2, THEN conjunct2, THEN conjunct2,
                        THEN conjunct2, THEN conjunct2, THEN conjunct1, rule_format]
  have a: "publishedAt docA \<noteq> None" by (rule no_absent) (simp add: p)
  have b: "publishedAt docB \<noteq> None" by (rule no_absent) (simp add: p)
  have d: "docC \<in> set (drafts tableABC)" by (rule has_absent [OF c])
  from p a b scenario c(2) d show ?thesis by simp
qed

text \<open>
  C8, as stated, fails for \<open>drafts\<close>. In the table holding A (published at 1) and Z,
  whose \<open>publishedAt\<close> is present and is the timestamp 0, \<open>drafts\<close> is [Z]: a document
  whose \<open>publishedAt\<close> is not absent is listed as a draft, and
  \<open>publishedInCollection\<close> leaves it out.
\<close>

theorem drafts_lists_falsy_publishedAt:
  "drafts tableAZ = [docZ] \<and> publishedAt docZ = Some 0 \<and> publishedAt docZ \<noteq> None \<and>
   docZ \<in> set (map snd (data tableAZ)) \<and>
   publishedInCollection tableAZ ''X'' = [docA]"
  by (simp add: drafts_def publishedInCollection_def orderBy_def data_values_def truthy_def
        fixture_defs)

subsection \<open>search: the page merge\<close>

lemma compact_map_Some: "compact (map (\<lambda>x. Some (f x)) xs) = map f xs"
  by (induction xs) (simp_all add: compact_def List.map_filter_simps)

lemma search_results_resolve:
  assumes "s1 = foldl (\<lambda>st r. add st (document r)) s payload"
  shows "map (\<lambda>r. case data_get s1 (doc_id (document r)) of
                      None \<Rightarrow> None
                    | Some doc \<Rightarrow> Some \<lparr>ranking = ranking r, context_text = context_text r,
                                         document = doc_id (document r)\<rparr>) payload
         = map (\<lambda>r. Some (cached_hit r)) payload"
proof (rule map_cong [OF refl])
  fix r assume "r \<in> set payload"
  from data_get_foldl_add_in [OF this, of document s] assms
  obtain d where "data_get s1 (doc_id (document r)) = Some d" by blast
  then show "(case data_get s1 (doc_id (document r)) of
                      None \<Rightarrow> None
                    | Some doc \<Rightarrow> Some \<lparr>ranking = ranking r, context_text = context_text r,
                                         document = doc_id (document r)\<rparr>) = Some (cached_hit r)"
    by (simp add: cached_hit_def)
qed

lemma search_success:
  assumes "search query options (Response (Some payload)) s = (r, s')"
  shows "r = Inr payload"
    and "searchResults s' query =
           splice_arr (searchResults s query) (or0 (offset options)) (or0 (limit options))
                  (map cached_hit payload)"
    and "q \<noteq> query \<Longrightarrow> searchCache s' q = searchCache s q"
    and "data s' = data (foldl (\<lambda>st r. add st (document r)) s payload)"
proof -
  let ?b = "search_begin query options s"
  let ?s1 = "foldl (\<lambda>st r. add st (document r)) ?b payload"
  have res: "compact (map (\<lambda>r. case data_get ?s1 (doc_id (document r)) of
                      None \<Rightarrow> None
                    | Some doc \<Rightarrow> Some \<lparr>ranking = ranking r, context_text = context_text r,
                                         document = doc_id (document r)\<rparr>) payload)
             = map cached_hit payload"
    by (simp only: search_results_resolve [OF refl] compact_map_Some)
  have cache: "searchCache ?s1 = searchCache s"
    by (simp add: search_begin_def)
  from assms have r: "r = Inr payload"
    and s': "s' = ?s1\<lparr>searchCache := (searchCache ?s1)(query \<mapsto>
                 splice_arr (case searchCache ?s1 query of None \<Rightarrow> [] | Some rs \<Rightarrow> rs)
                   (or0 (offset options)) (or0 (limit options)) (map cached_hit payload))\<rparr>"
    by (simp_all add: search_def search_resume_def Let_def res)
  show "r = Inr payload" by (rule r)
  show "searchResults s' query =
           splice_arr (searchResults s query) (or0 (offset options)) (or0 (limit options))
                  (map cached_hit payload)"
    by (simp add: s' search_begin_def searchResults_def)
  show "searchCache s' q = searchCache s q" if "q \<noteq> query"
    using that by (simp add: s' search_begin_def)
  show "data s' = data (foldl (\<lambda>st r. add st (document r)) s payload)"
    unfolding s' using data_foldl_add_cong [of ?b s document payload]
    by (simp add: search_begin_def)
qed

lemma splice_nat:
  "splice_arr xs (int a) (int d) items = take a xs @ items @ drop (a + d) xs"
proof (cases "a \<le> length xs")
  case True
  show ?thesis
  proof (cases "d \<le> length xs - a")
    case True
    with \<open>a \<le> length xs\<close> have "nat (int a + min (int d) (int (length xs) - int a)) = a + d"
      by linarith
    with \<open>a \<le> length xs\<close> show ?thesis
      by (simp add: splice_arr_def Let_def nat_int_add)
  next
    case False
    with \<open>a \<le> length xs\<close> have "nat (int a + min (int d) (int (length xs) - int a)) = length xs"
      by linarith
    with \<open>a \<le> length xs\<close> False show ?thesis
      by (simp add: splice_arr_def Let_def)
  qed
next
  case False
  then show ?thesis
    by (simp add: splice_arr_def Let_def)
qed

lemma splice_nonneg:
  assumes "0 \<le> start" "0 \<le> deleteCount"
  shows "splice_arr xs start deleteCount items =
           take (nat start) xs @ items @ drop (nat start + nat deleteCount) xs"
  using splice_nat [of xs "nat start" "nat deleteCount" items] assms by simp

lemma search_splice_nat:
  assumes "search query options (Response (Some payload)) s = (r, s')"
      and "or0 (offset options) = int off" "or0 (limit options) = int lim"
  shows "searchResults s' query =
           take off (searchResults s query) @ map cached_hit payload
             @ drop (off + lim) (searchResults s query)"
  using search_success(2) [OF assms(1)] assms(2,3)
  by (simp add: splice_nat)

lemma overwrite_length:
  assumes "off \<le> length old" "length page = n"
  shows "length (take off old @ page @ drop (off + n) old) = max (length old) (off + n)"
  using assms by auto

lemma overwrite_nth:
  assumes "off \<le> length old" "length page = n" "i < max (length old) (off + n)"
  shows "(take off old @ page @ drop (off + n) old) ! i =
           (if off \<le> i \<and> i < off + n then page ! (i - off) else old ! i)"
proof -
  consider "i < off" | "off \<le> i" "i < off + n" | "off + n \<le> i" by linarith
  then show ?thesis
  proof cases
    case 1
    with assms show ?thesis by (simp add: nth_append)
  next
    case 2
    then have "i - off < n" by linarith
    with 2 assms show ?thesis by (simp add: nth_append)
  next
    case 3
    with assms have i: "i < length old" by simp
    from 3 have a: "\<not> i < off" and b: "\<not> i - off < n" and c: "off + n + (i - off - n) = i"
      by linarith+
    have "(take off old @ page @ drop (off + n) old) ! i = (page @ drop (off + n) old) ! (i - off)"
      using assms(1) a by (simp add: nth_append)
    also have "\<dots> = drop (off + n) old ! (i - off - n)"
      using assms(2) b by (simp add: nth_append)
    also have "\<dots> = old ! (off + n + (i - off - n))"
      using 3 i by (intro nth_drop) simp
    finally show ?thesis using 3 c by simp
  qed
qed

lemma extent_mono: "n \<le> extent n calls"
proof (induction calls arbitrary: n)
  case Nil
  show ?case by simp
next
  case (Cons c calls)
  obtain options payload where c: "c = (options, payload)" by (cases c)
  let ?end = "nat (or0 (offset options)) + min (nat (or0 (limit options))) (length payload)"
  have "n \<le> max n ?end" by simp
  also have "\<dots> \<le> extent (max n ?end) calls" by (rule Cons.IH)
  finally show ?case by (simp add: c)
qed

lemma pages_fit_Cons:
  assumes "pages_fit n ((options, payload) # later)"
  shows "0 \<le> or0 (offset options)"
    and "nat (or0 (offset options)) \<le> n"
    and "length payload \<le> nat (or0 (limit options))"
    and "or0 (limit options) = int (nat (or0 (limit options)))"
    and "length payload = nat (or0 (limit options))
           \<or> n \<le> nat (or0 (offset options)) + length payload"
    and "pages_fit (max n (nat (or0 (offset options)) + length payload)) later"
    and "extent n ((options, payload) # later)
           = extent (max n (nat (or0 (offset options)) + length payload)) later"
proof -
  have all: "0 \<le> or0 (offset options) \<and> nat (or0 (offset options)) \<le> n \<and>
      int (length payload) \<le> or0 (limit options) \<and>
      (int (length payload) = or0 (limit options)
         \<or> n \<le> nat (or0 (offset options)) + length payload) \<and>
      pages_fit (max n (nat (or0 (offset options)) + length payload)) later"
    using assms unfolding pages_fit.simps .
  then show "0 \<le> or0 (offset options)" and "nat (or0 (offset options)) \<le> n"
    and "pages_fit (max n (nat (or0 (offset options)) + length payload)) later"
    by blast+
  from all have le: "int (length payload) \<le> or0 (limit options)" by blast
  then show le': "length payload \<le> nat (or0 (limit options))" by linarith
  from le show "or0 (limit options) = int (nat (or0 (limit options)))" by simp
  from all have "int (length payload) = or0 (limit options)
         \<or> n \<le> nat (or0 (offset options)) + length payload" by blast
  then show "length payload = nat (or0 (limit options))
           \<or> n \<le> nat (or0 (offset options)) + length payload" by linarith
  from le' have "min (nat (or0 (limit options))) (length payload) = length payload"
    by simp
  then show "extent n ((options, payload) # later)
           = extent (max n (nat (or0 (offset options)) + length payload)) later"
    by simp
qed

lemma page_at_covers:
  "pages_fit n calls \<Longrightarrow> n \<le> i \<Longrightarrow> i < extent n calls \<Longrightarrow> page_at calls i \<noteq> None"
proof (induction calls arbitrary: n)
  case Nil
  then show ?case by simp
next
  case (Cons c calls)
  obtain options payload where c: "c = (options, payload)" by (cases c)
  let ?off = "nat (or0 (offset options))" and ?lim = "nat (or0 (limit options))"
  from Cons.prems(1) have fit: "pages_fit n ((options, payload) # calls)" by (simp only: c)
  note fp = pages_fit_Cons(6) [OF fit] and off = pages_fit_Cons(2) [OF fit]
    and le = pages_fit_Cons(3) [OF fit]
  have ext: "i < extent (max n (?off + length payload)) calls"
    using Cons.prems(3) unfolding c pages_fit_Cons(7) [OF fit] .
  show ?case
  proof (cases "page_at calls i")
    case (Some x)
    then show ?thesis by (simp add: c)
  next
    case None
    with Cons.IH [OF fp _ ext] have "\<not> max n (?off + length payload) \<le> i" by blast
    with Cons.prems(2) off have in_page: "?off \<le> i \<and> i < ?off + length payload" by simp
    with le have "i < ?off + ?lim" and "i - ?off < length payload" by linarith+
    with in_page None show ?thesis by (simp add: c Let_def)
  qed
qed

lemma search_all_Cons:
  "search_all q ((options, payload) # later) s =
     search_all q later (snd (search q options (Response (Some payload)) s))"
  by (simp add: search_all_def)

lemma search_all_union:
  assumes "pages_fit (length (searchResults s q)) calls"
  shows "length (searchResults (search_all q calls s) q) = extent (length (searchResults s q)) calls \<and>
         (\<forall>i < length (searchResults (search_all q calls s) q).
            searchResults (search_all q calls s) q ! i =
              (case page_at calls i of Some x \<Rightarrow> x | None \<Rightarrow> searchResults s q ! i))"
  using assms
proof (induction calls arbitrary: s)
  case Nil
  show ?case by (simp add: search_all_def)
next
  case (Cons c later)
  obtain options payload where c: "c = (options, payload)" by (cases c)
  let ?off = "nat (or0 (offset options))" and ?lim = "nat (or0 (limit options))"
  let ?n = "length payload"
  let ?old = "searchResults s q"
  obtain r s1 where run: "search q options (Response (Some payload)) s = (r, s1)"
    by (cases "search q options (Response (Some payload)) s")
  let ?c1 = "searchResults s1 q"
  let ?final = "searchResults (search_all q later s1) q"
  from Cons.prems have fit: "pages_fit (length ?old) ((options, payload) # later)"
    by (simp only: c)
  note nonneg = pages_fit_Cons(1) [OF fit] and off = pages_fit_Cons(2) [OF fit]
    and le = pages_fit_Cons(3) [OF fit] and lim0 = pages_fit_Cons(4) [OF fit]
    and alt = pages_fit_Cons(5) [OF fit] and fp = pages_fit_Cons(6) [OF fit]
    and ext = pages_fit_Cons(7) [OF fit]
  from nonneg have off0: "or0 (offset options) = int ?off" by simp
  have spliced: "?c1 = take ?off ?old @ map cached_hit payload @ drop (?off + ?lim) ?old"
    by (rule search_splice_nat [OF run off0 lim0])
  have tail: "drop (?off + ?lim) ?old = drop (?off + ?n) ?old"
    using alt
  proof
    assume "?n = ?lim"
    then show ?thesis by simp
  next
    assume "length ?old \<le> ?off + ?n"
    with le show ?thesis by simp
  qed
  have c1: "?c1 = take ?off ?old @ map cached_hit payload @ drop (?off + ?n) ?old"
    using spliced tail by simp
  have len1: "length ?c1 = max (length ?old) (?off + ?n)"
    unfolding c1 by (rule overwrite_length [OF off]) simp
  have nth1: "?c1 ! i = (if ?off \<le> i \<and> i < ?off + ?n then cached_hit (payload ! (i - ?off)) else ?old ! i)"
    if "i < length ?c1" for i
  proof -
    from that len1 have i: "i < max (length ?old) (?off + ?n)" by simp
    have "?c1 ! i = (if ?off \<le> i \<and> i < ?off + ?n
                      then map cached_hit payload ! (i - ?off) else ?old ! i)"
      unfolding c1 by (rule overwrite_nth [OF off _ i]) simp
    then show ?thesis by (auto simp: nth_map)
  qed
  from fp len1 have fp1: "pages_fit (length ?c1) later" by simp
  from Cons.IH [OF fp1]
  have lenf: "length ?final = extent (length ?c1) later"
    and nthf: "\<And>i. i < length ?final \<Longrightarrow>
                 ?final ! i = (case page_at later i of Some x \<Rightarrow> x | None \<Rightarrow> ?c1 ! i)"
    by simp_all
  have all: "search_all q (c # later) s = search_all q later s1"
    by (simp add: c search_all_Cons run)
  have lenc: "length ?final = extent (length ?old) (c # later)"
    unfolding c ext lenf len1 ..
  have "?final ! i = (case page_at (c # later) i of Some x \<Rightarrow> x | None \<Rightarrow> ?old ! i)"
    if i: "i < length ?final" for i
  proof (cases "page_at later i")
    case (Some x)
    with nthf [OF i] show ?thesis by (simp add: c)
  next
    case None
    have "i < length ?c1"
    proof (rule ccontr)
      assume "\<not> i < length ?c1"
      then have "length ?c1 \<le> i" by simp
      moreover from i lenf have "i < extent (length ?c1) later" by simp
      ultimately have "page_at later i \<noteq> None" by (rule page_at_covers [OF fp1])
      with None show False by simp
    qed
    have same: "(?off \<le> i \<and> i < ?off + ?lim \<and> i - ?off < ?n) = (?off \<le> i \<and> i < ?off + ?n)"
      using le by linarith
    have "page_at (c # later) i =
            (if ?off \<le> i \<and> i < ?off + ?n then Some (cached_hit (payload ! (i - ?off))) else None)"
      using None by (simp add: c Let_def same)
    with nth1 [OF \<open>i < length ?c1\<close>] nthf [OF i] None show ?thesis
      by simp
  qed
  with lenc all show ?case by simp
qed

lemma search_all_others:
  "q' \<noteq> q \<Longrightarrow> searchCache (search_all q calls s) q' = searchCache s q'"
proof (induction calls arbitrary: s)
  case Nil
  show ?case by (simp add: search_all_def)
next
  case (Cons c later)
  obtain options payload where c: "c = (options, payload)" by (cases c)
  obtain r s1 where run: "search q options (Response (Some payload)) s = (r, s1)"
    by (cases "search q options (Response (Some payload)) s")
  from search_success(3) [OF run Cons.prems] Cons.IH [OF Cons.prems, of s1]
  show ?case by (simp add: c search_all_Cons run)
qed

text \<open>
  C2. When \<open>search(q, {offset: 0, limit: 10})\<close> returns ten results and is followed by
  \<open>search(q, {offset: 10, limit: 10})\<close> returning ten results, the first ten cached
  results are those of the first call, unchanged by the second, the next ten are the
  second page in order, and the cached sequence has \<open>max 20 n\<close> elements, where \<open>n\<close>
  is what the cache held for \<open>q\<close> before the first call: exactly twenty for a query
  searched for the first time (or one whose cache did not reach beyond index 20).
\<close>

theorem search_second_page:
  assumes first: "search q options1 (Response (Some payload1)) s = (r1, s1)"
      and second: "search q options2 (Response (Some payload2)) s1 = (r2, s2)"
      and o1: "offset options1 = Some 0 \<and> limit options1 = Some 10"
      and o2: "offset options2 = Some 10 \<and> limit options2 = Some 10"
      and ten: "length payload1 = 10 \<and> length payload2 = 10"
  shows "length (searchResults s2 q) = max 20 (length (searchResults s q)) \<and>
         (length (searchResults s q) \<le> 20 \<longrightarrow> length (searchResults s2 q) = 20) \<and>
         take 10 (searchResults s1 q) = map cached_hit payload1 \<and>
         take 10 (searchResults s2 q) = take 10 (searchResults s1 q) \<and>
         take 10 (drop 10 (searchResults s2 q)) = map cached_hit payload2 \<and>
         (\<forall>i < 10. searchResults s2 q ! i = searchResults s1 q ! i \<and>
                   searchResults s2 q ! (10 + i) = cached_hit (payload2 ! i))"
proof -
  let ?old = "searchResults s q" and ?c1 = "searchResults s1 q" and ?c2 = "searchResults s2 q"
  let ?P1 = "map cached_hit payload1" and ?P2 = "map cached_hit payload2"
  have c1: "?c1 = ?P1 @ drop 10 ?old"
    using search_splice_nat [OF first, of 0 10] o1 by (simp add: or0_def)
  have c2: "?c2 = take 10 ?c1 @ ?P2 @ drop 20 ?c1"
    using search_splice_nat [OF second, of 10 10] o2 by (simp add: or0_def)
  have l1: "length payload1 = 10" and l2: "length payload2 = 10" using ten by simp_all
  have t1: "take 10 ?c1 = ?P1" by (simp add: c1 l1)
  have d1: "drop 20 ?c1 = drop 20 ?old" by (simp add: c1 l1)
  have c2': "?c2 = ?P1 @ ?P2 @ drop 20 ?old" by (simp add: c2 t1 d1)
  have len: "length ?c2 = max 20 (length ?old)" by (simp add: c2' l1 l2)
  have t2: "take 10 ?c2 = take 10 ?c1" by (simp add: c2' t1 l1)
  have m2: "take 10 (drop 10 ?c2) = ?P2" by (simp add: c2' l1 l2)
  have nth: "?c2 ! i = ?c1 ! i \<and> ?c2 ! (10 + i) = cached_hit (payload2 ! i)" if "i < 10" for i
  proof -
    have "?c2 ! i = ?P1 ! i" "?c1 ! i = ?P1 ! i"
      using that by (simp_all add: c2' c1 nth_append l1)
    moreover have "?c2 ! (10 + i) = ?P2 ! i"
      using that by (simp add: c2' nth_append l1 l2)
    ultimately show ?thesis using that ten by simp
  qed
  from len t1 t2 m2 nth show ?thesis by simp
qed

theorem search_second_page_witness:
  "length (searchResults (snd (search ''q'' (paging 10 10) (Response (Some second_page))
      (snd (search ''q'' (paging 0 10) (Response (Some first_page)) initial)))) ''q'') = 20 \<and>
   take 10 (searchResults (snd (search ''q'' (paging 10 10) (Response (Some second_page))
      (snd (search ''q'' (paging 0 10) (Response (Some first_page)) initial)))) ''q'')
     = map cached_hit first_page \<and>
   drop 10 (searchResults (snd (search ''q'' (paging 10 10) (Response (Some second_page))
      (snd (search ''q'' (paging 0 10) (Response (Some first_page)) initial)))) ''q'')
     = map cached_hit second_page"
proof -
  obtain r1 s1 where first: "search ''q'' (paging 0 10) (Response (Some first_page)) initial = (r1, s1)"
    by (cases "search ''q'' (paging 0 10) (Response (Some first_page)) initial")
  obtain r2 s2 where second: "search ''q'' (paging 10 10) (Response (Some second_page)) s1 = (r2, s2)"
    by (cases "search ''q'' (paging 10 10) (Response (Some second_page)) s1")
  have o1: "offset (paging 0 10) = Some 0 \<and> limit (paging 0 10) = Some 10"
    and o2: "offset (paging 10 10) = Some 10 \<and> limit (paging 10 10) = Some 10"
    by (simp_all add: paging_def)
  have ten: "length first_page = 10 \<and> length second_page = 10"
    by (simp add: first_page_def second_page_def)
  have fresh: "length (searchResults initial ''q'') \<le> 20"
    by (simp add: searchResults_def initial_def)
  note th = search_second_page [OF first second o1 o2 ten]
  from th fresh have len: "length (searchResults s2 ''q'') = 20" by blast
  from th have a: "take 10 (searchResults s2 ''q'') = map cached_hit first_page"
    and b: "take 10 (drop 10 (searchResults s2 ''q'')) = map cached_hit second_page"
    by simp_all
  from b len have "drop 10 (searchResults s2 ''q'') = map cached_hit second_page" by simp
  with len a show ?thesis by (simp add: first second)
qed

text \<open>
  C3. Calling \<open>search(q, {offset: 0, limit: 10})\<close> twice with the same ten results is
  idempotent: the second call leaves the cached sequence exactly as the first call left
  it. For a query searched for the first time (or one whose cache held at most ten
  results) that sequence is the page itself, of length 10, not 20.
\<close>

theorem search_same_page_twice:
  assumes first: "search q options (Response (Some payload)) s = (r1, s1)"
      and second: "search q options (Response (Some payload)) s1 = (r2, s2)"
      and opts: "offset options = Some 0 \<and> limit options = Some 10"
      and ten: "length payload = 10"
  shows "searchResults s2 q = searchResults s1 q \<and>
         length (searchResults s2 q) = max 10 (length (searchResults s q)) \<and>
         (length (searchResults s q) \<le> 10 \<longrightarrow>
            length (searchResults s2 q) = 10 \<and> searchResults s2 q = map cached_hit payload)"
proof -
  let ?old = "searchResults s q" and ?c1 = "searchResults s1 q" and ?c2 = "searchResults s2 q"
  let ?P = "map cached_hit payload"
  note l = ten
  have c1: "?c1 = ?P @ drop 10 ?old"
    using search_splice_nat [OF first, of 0 10] opts by (simp add: or0_def)
  have c2: "?c2 = ?P @ drop 10 ?c1"
    using search_splice_nat [OF second, of 0 10] opts by (simp add: or0_def)
  have same: "?c2 = ?c1" by (simp add: c2) (simp add: c1 l)
  have len: "length ?c2 = max 10 (length ?old)" by (simp add: same c1 l)
  have "?c2 = ?P" if "length ?old \<le> 10" using that by (simp add: same c1)
  with same len ten show ?thesis by simp
qed

theorem search_same_page_twice_witness:
  "length (searchResults (snd (search ''q'' (paging 0 10) (Response (Some first_page))
      (snd (search ''q'' (paging 0 10) (Response (Some first_page)) initial)))) ''q'') = 10"
proof -
  obtain r1 s1 where first: "search ''q'' (paging 0 10) (Response (Some first_page)) initial = (r1, s1)"
    by (cases "search ''q'' (paging 0 10) (Response (Some first_page)) initial")
  obtain r2 s2 where second: "search ''q'' (paging 0 10) (Response (Some first_page)) s1 = (r2, s2)"
    by (cases "search ''q'' (paging 0 10) (Response (Some first_page)) s1")
  have opts: "offset (paging 0 10) = Some 0 \<and> limit (paging 0 10) = Some 10"
    by (simp add: paging_def)
  have ten: "length first_page = 10"
    by (simp add: first_page_def)
  have fresh: "length (searchResults initial ''q'') \<le> 10"
    by (simp add: searchResults_def initial_def)
  from search_same_page_twice [OF first second opts ten] fresh
  have "length (searchResults s2 ''q'') = 10" by blast
  then show ?thesis by (simp add: first second)
qed

text \<open>
  C1, as the code has it. For a run of successful \<open>search\<close> calls for \<open>q\<close> in which
  every page starts at an offset between 0 and the current length of the cached sequence
  (an absent offset counting as 0), has no more results than its limit, and is either
  full or reaches the current end of the cached sequence (a first search that returns
  fewer results than its limit, the short last page of a run), the cached sequence is
  the union of the pages: its length is the end of the furthest page (never less than
  before the run), every index holds what the latest page covering it holds there, an
  index that no page covers holds what it held before the run, every index beyond the
  old length is covered by some page, and the cache entries of other queries are
  untouched. A single call is a run of length one: it overwrites exactly the places its
  results fill and can only grow the sequence.
\<close>

theorem search_cache_union_of_pages:
  assumes "pages_fit (length (searchResults s q)) calls"
  shows "length (searchResults (search_all q calls s) q) = extent (length (searchResults s q)) calls \<and>
         length (searchResults s q) \<le> length (searchResults (search_all q calls s) q) \<and>
         (\<forall>i < length (searchResults (search_all q calls s) q).
            searchResults (search_all q calls s) q ! i =
              (case page_at calls i of Some x \<Rightarrow> x | None \<Rightarrow> searchResults s q ! i)) \<and>
         (\<forall>i < length (searchResults (search_all q calls s) q).
            length (searchResults s q) \<le> i \<longrightarrow> page_at calls i \<noteq> None) \<and>
         (\<forall>q'. q' \<noteq> q \<longrightarrow> searchCache (search_all q calls s) q' = searchCache s q')"
proof -
  let ?old = "searchResults s q" and ?final = "searchResults (search_all q calls s) q"
  from search_all_union [OF assms]
  have len: "length ?final = extent (length ?old) calls"
    and nth: "\<forall>i < length ?final.
                ?final ! i = (case page_at calls i of Some x \<Rightarrow> x | None \<Rightarrow> ?old ! i)"
    by simp_all
  have grow: "length ?old \<le> length ?final"
    unfolding len by (rule extent_mono)
  have cov: "\<forall>i < length ?final. length ?old \<le> i \<longrightarrow> page_at calls i \<noteq> None"
    using page_at_covers [OF assms] len by simp
  have others: "\<forall>q'. q' \<noteq> q \<longrightarrow> searchCache (search_all q calls s) q' = searchCache s q'"
    by (simp add: search_all_others)
  from len grow nth cov others show ?thesis by blast
qed

theorem search_cache_union_of_pages_witness:
  "length (searchResults
      (search_all ''q'' [(paging 0 10, first_page), (paging 10 10, second_page),
                         (paging 5 10, first_page), (paging 20 10, short_page)] initial)
      ''q'') = 23 \<and>
   searchResults
      (search_all ''q'' [(paging 0 10, first_page), (paging 10 10, second_page),
                         (paging 5 10, first_page), (paging 20 10, short_page)] initial)
      ''q'' ! 4 = cached_hit (hit ''d04'') \<and>
   searchResults
      (search_all ''q'' [(paging 0 10, first_page), (paging 10 10, second_page),
                         (paging 5 10, first_page), (paging 20 10, short_page)] initial)
      ''q'' ! 5 = cached_hit (hit ''d00'') \<and>
   searchResults
      (search_all ''q'' [(paging 0 10, first_page), (paging 10 10, second_page),
                         (paging 5 10, first_page), (paging 20 10, short_page)] initial)
      ''q'' ! 15 = cached_hit (hit ''d15'') \<and>
   searchResults
      (search_all ''q'' [(paging 0 10, first_page), (paging 10 10, second_page),
                         (paging 5 10, first_page), (paging 20 10, short_page)] initial)
      ''q'' ! 22 = cached_hit (hit ''d22'') \<and>
   length (searchResults (search_all ''q'' [(paging 0 10, short_page)] initial) ''q'') = 3 \<and>
   searchResults (search_all ''q'' [(paging 0 10, short_page)] initial) ''q'' ! 2
     = cached_hit (hit ''d22'')"
proof -
  let ?calls = "[(paging 0 10, first_page), (paging 10 10, second_page),
                 (paging 5 10, first_page), (paging 20 10, short_page)]"
  let ?one = "[(paging 0 10, short_page)]"
  have old: "length (searchResults initial ''q'') = 0"
    by (simp add: searchResults_def initial_def)
  have fp: "pages_fit (length (searchResults initial ''q'')) ?calls"
    by (simp add: old paging_def or0_def first_page_def second_page_def short_page_def)
  have ext: "extent (length (searchResults initial ''q'')) ?calls = 23"
    by (simp add: old paging_def or0_def first_page_def second_page_def short_page_def)
  have at: "page_at ?calls 4 = Some (cached_hit (hit ''d04''))"
    "page_at ?calls 5 = Some (cached_hit (hit ''d00''))"
    "page_at ?calls 15 = Some (cached_hit (hit ''d15''))"
    "page_at ?calls 22 = Some (cached_hit (hit ''d22''))"
    by (simp_all add: paging_def or0_def first_page_def second_page_def short_page_def)
  have fp1: "pages_fit (length (searchResults initial ''q'')) ?one"
    by (simp add: old paging_def or0_def short_page_def)
  have ext1: "extent (length (searchResults initial ''q'')) ?one = 3"
    by (simp add: old paging_def or0_def short_page_def)
  have at1: "page_at ?one 2 = Some (cached_hit (hit ''d22''))"
    by (simp add: paging_def or0_def short_page_def)
  let ?F = "searchResults (search_all ''q'' ?calls initial) ''q''"
  let ?G = "searchResults (search_all ''q'' ?one initial) ''q''"
  note th = search_cache_union_of_pages [OF fp]
  note th1 = search_cache_union_of_pages [OF fp1]
  have len: "length ?F = 23"
    using th [THEN conjunct1] by (simp only: ext)
  note nth = th [THEN conjunct2, THEN conjunct2, THEN conjunct1, rule_format]
  have "(4::nat) < 23" "(5::nat) < 23" "(15::nat) < 23" "(22::nat) < 23" by simp_all
  then have in_range: "4 < length ?F" "5 < length ?F" "15 < length ?F" "22 < length ?F"
    by (simp_all only: len)
  have e4: "?F ! 4 = cached_hit (hit ''d04'')"
    using nth [OF in_range(1)] by (simp only: at option.case)
  have e5: "?F ! 5 = cached_hit (hit ''d00'')"
    using nth [OF in_range(2)] by (simp only: at option.case)
  have e15: "?F ! 15 = cached_hit (hit ''d15'')"
    using nth [OF in_range(3)] by (simp only: at option.case)
  have e22: "?F ! 22 = cached_hit (hit ''d22'')"
    using nth [OF in_range(4)] by (simp only: at option.case)
  have len1: "length ?G = 3"
    using th1 [THEN conjunct1] by (simp only: ext1)
  note nth1 = th1 [THEN conjunct2, THEN conjunct2, THEN conjunct1, rule_format]
  have "(2::nat) < 3" by simp
  then have "2 < length ?G" by (simp only: len1)
  from nth1 [OF this] have g2: "?G ! 2 = cached_hit (hit ''d22'')"
    by (simp only: at1 option.case)
  from len e4 e5 e15 e22 len1 g2 show ?thesis by (intro conjI)
qed

text \<open>
  C1, as stated, fails. After \<open>search(q, {offset: 0, limit: 3})\<close> has cached the three
  results a, b, c:
  \<^item> a \<open>search(q, {offset: 0, limit: 2})\<close> that returns the single result d (fewer than
    its limit, and not reaching the end of what is cached) leaves the sequence [d, c]:
    it has shrunk from three to two, and c, outside the range fetched, has moved from
    index 2 to index 1;
  \<^item> with offset and limit absent the same response is inserted in front and nothing
    is overwritten: the page has more results than its limit of 0;
  \<^item> a \<open>search(q, {offset: 5, limit: 2})\<close> that returns d, e, its offset past the end
    of what is cached, leaves [a, b, c, d, e]: the page sits at indices 3 and 4, not
    in its range from 5 to 7;
  \<^item> a \<open>search(q, {offset: -1, limit: 1})\<close> that returns d counts its offset from the
    end and leaves [a, b, d].
\<close>

theorem search_short_page_shrinks:
  "searchResults (snd (search ''q'' (paging 0 3) (Response (Some [hit ''a'', hit ''b'', hit ''c''])) initial))
     ''q'' = [cached_hit (hit ''a''), cached_hit (hit ''b''), cached_hit (hit ''c'')] \<and>
   searchResults (snd (search ''q'' (paging 0 2) (Response (Some [hit ''d'']))
       (snd (search ''q'' (paging 0 3) (Response (Some [hit ''a'', hit ''b'', hit ''c''])) initial))))
     ''q'' = [cached_hit (hit ''d''), cached_hit (hit ''c'')] \<and>
   searchResults (snd (search ''q'' no_paging (Response (Some [hit ''d'']))
       (snd (search ''q'' (paging 0 3) (Response (Some [hit ''a'', hit ''b'', hit ''c''])) initial))))
     ''q'' = [cached_hit (hit ''d''), cached_hit (hit ''a''), cached_hit (hit ''b''), cached_hit (hit ''c'')] \<and>
   length (searchResults (snd (search ''q'' (paging 0 2) (Response (Some [hit ''d'']))
       (snd (search ''q'' (paging 0 3) (Response (Some [hit ''a'', hit ''b'', hit ''c''])) initial))))
     ''q'')
   < length (searchResults
       (snd (search ''q'' (paging 0 3) (Response (Some [hit ''a'', hit ''b'', hit ''c''])) initial))
     ''q'') \<and>
   searchResults (snd (search ''q'' (paging 5 2) (Response (Some [hit ''d'', hit ''e'']))
       (snd (search ''q'' (paging 0 3) (Response (Some [hit ''a'', hit ''b'', hit ''c''])) initial))))
     ''q'' = [cached_hit (hit ''a''), cached_hit (hit ''b''), cached_hit (hit ''c''),
              cached_hit (hit ''d''), cached_hit (hit ''e'')] \<and>
   searchResults (snd (search ''q'' (paging (- 1) 1) (Response (Some [hit ''d'']))
       (snd (search ''q'' (paging 0 3) (Response (Some [hit ''a'', hit ''b'', hit ''c''])) initial))))
     ''q'' = [cached_hit (hit ''a''), cached_hit (hit ''b''), cached_hit (hit ''d'')]"
proof -
  let ?abc = "[hit ''a'', hit ''b'', hit ''c'']"
  obtain r1 s1 where first: "search ''q'' (paging 0 3) (Response (Some ?abc)) initial = (r1, s1)"
    by (cases "search ''q'' (paging 0 3) (Response (Some ?abc)) initial")
  obtain r2 s2 where second: "search ''q'' (paging 0 2) (Response (Some [hit ''d''])) s1 = (r2, s2)"
    by (cases "search ''q'' (paging 0 2) (Response (Some [hit ''d''])) s1")
  obtain r3 s3 where third: "search ''q'' no_paging (Response (Some [hit ''d''])) s1 = (r3, s3)"
    by (cases "search ''q'' no_paging (Response (Some [hit ''d''])) s1")
  obtain r4 s4 where fourth:
    "search ''q'' (paging 5 2) (Response (Some [hit ''d'', hit ''e''])) s1 = (r4, s4)"
    by (cases "search ''q'' (paging 5 2) (Response (Some [hit ''d'', hit ''e''])) s1")
  obtain r5 s5 where fifth:
    "search ''q'' (paging (- 1) 1) (Response (Some [hit ''d''])) s1 = (r5, s5)"
    by (cases "search ''q'' (paging (- 1) 1) (Response (Some [hit ''d''])) s1")
  have c1: "searchResults s1 ''q'' = map cached_hit ?abc"
    using search_splice_nat [OF first, of 0 3]
    by (simp add: paging_def or0_def searchResults_def initial_def)
  have c2: "searchResults s2 ''q'' = [cached_hit (hit ''d''), cached_hit (hit ''c'')]"
    using search_splice_nat [OF second, of 0 2]
    by (simp add: paging_def or0_def c1)
  have c3: "searchResults s3 ''q'' =
              [cached_hit (hit ''d''), cached_hit (hit ''a''), cached_hit (hit ''b''), cached_hit (hit ''c'')]"
    using search_splice_nat [OF third, of 0 0]
    by (simp add: no_paging_def or0_def c1)
  have c4: "searchResults s4 ''q'' =
              [cached_hit (hit ''a''), cached_hit (hit ''b''), cached_hit (hit ''c''),
               cached_hit (hit ''d''), cached_hit (hit ''e'')]"
    using search_splice_nat [OF fourth, of 5 2]
    by (simp add: paging_def or0_def c1)
  have c5: "searchResults s5 ''q'' =
              [cached_hit (hit ''a''), cached_hit (hit ''b''), cached_hit (hit ''d'')]"
    using search_success(2) [OF fifth]
    by (simp add: paging_def or0_def c1 splice_arr_def)
  from c1 c2 c3 c4 c5 show ?thesis by (simp add: first second third fourth fifth)
qed

end
